theory Spec2Isabelle
  imports Main
begin

section \<open>Group operations on I/O requests (thrill/io/request_operations.hpp)\<close>

text \<open>
  The header defines four templates over a range of request handles, \<open>wait_all\<close>,
  \<open>cancel_all\<close>, \<open>poll_any\<close> and \<open>wait_any\<close>, and array overloads of them. Every
  effect of these functions is a call of a member function of a request
  (\<open>wait\<close>, \<open>poll\<close>, \<open>cancel\<close>, \<open>add_waiter\<close>, \<open>delete_waiter\<close>, \<open>check_error\<close>) or of the
  local \<open>onoff_switch\<close> (its constructor and \<open>wait_for_on\<close>). The classes themselves
  (thrill/io/request.hpp, thrill/common/onoff_switch.hpp) are included by the header and
  are not part of it, so the embedding takes them as a parameter: a record of state
  transformers over a world \<open>'w\<close>, one field per member function.

  \<^item> \<open>'r\<close> is a request handle (\<open>RequestPtr\<close>), \<open>'s\<close> a switch (\<open>onoff_switch*\<close>),
    \<open>'e\<close> the error that \<open>check_error\<close> may throw.
  \<^item> A call that may suspend the thread for ever (\<open>wait\<close>, \<open>wait_for_on\<close>) returns an
    option: \<open>None\<close> is "never returns".
  \<^item> \<open>check_error\<close> returns \<open>Some e\<close> when it throws \<open>e\<close>.
  \<^item> A range \<open>[reqs_begin, reqs_end)\<close> is the list of the handles in it; an iterator is the
    index of its element, \<open>reqs_begin\<close> is \<open>0\<close> and \<open>reqs_end\<close> is the length of the list.
    The loops test \<open>cur != reqs_end\<close>; an index that starts at \<open>0\<close> and is incremented
    never passes the length, so the test is written \<open>cur < length reqs\<close>, which also makes
    the recursion terminate on every argument.
  \<^item> \<open>Stats::scoped_wait_timer\<close> in \<open>wait_any\<close> only reports to the statistics collector,
    which is not part of the world modelled here.
\<close>

record ('r, 's, 'w, 'e) request_ops =
  wait :: "'r \<Rightarrow> 'w \<Rightarrow> 'w option"
  poll :: "'r \<Rightarrow> 'w \<Rightarrow> bool \<times> 'w"
  cancel :: "'r \<Rightarrow> 'w \<Rightarrow> bool \<times> 'w"
  add_waiter :: "'r \<Rightarrow> 's \<Rightarrow> 'w \<Rightarrow> bool \<times> 'w"
  delete_waiter :: "'r \<Rightarrow> 's \<Rightarrow> 'w \<Rightarrow> 'w"
  check_error :: "'r \<Rightarrow> 'w \<Rightarrow> 'e option \<times> 'w"
  new_switch :: "'w \<Rightarrow> 's \<times> 'w"
  wait_for_on :: "'s \<Rightarrow> 'w \<Rightarrow> 'w option"

subsection \<open>wait_all\<close>

text \<open>
  \<^verbatim>\<open>for ( ; reqs_begin != reqs_end; ++reqs_begin) (RequestPtr(*reqs_begin))->wait();\<close>
\<close>

function wait_all_from ::
  "('r, 's, 'w, 'e) request_ops \<Rightarrow> 'r list \<Rightarrow> nat \<Rightarrow> 'w \<Rightarrow> 'w option" where
  "wait_all_from ops reqs cur w =
     (if cur < length reqs then
        (case wait ops (reqs ! cur) w of
           None \<Rightarrow> None
         | Some w' \<Rightarrow> wait_all_from ops reqs (Suc cur) w')
      else Some w)"
  by pat_completeness auto
termination
  by (relation "measure (\<lambda>(ops, reqs, cur, w). length reqs - cur)") auto

definition wait_all :: "('r, 's, 'w, 'e) request_ops \<Rightarrow> 'r list \<Rightarrow> 'w \<Rightarrow> 'w option" where
  "wait_all ops reqs w = wait_all_from ops reqs 0 w"

text \<open>The array overload: \<open>wait_all(req_array, req_array + count)\<close>.\<close>

definition wait_all_array ::
  "('r, 's, 'w, 'e) request_ops \<Rightarrow> 'r list \<Rightarrow> nat \<Rightarrow> 'w \<Rightarrow> 'w option" where
  "wait_all_array ops req_array count w = wait_all ops (take count req_array) w"

subsection \<open>cancel_all\<close>

text \<open>
  \<^verbatim>\<open>
  num_canceled = 0;
  while (reqs_begin != reqs_end) {
      if ((RequestPtr(*reqs_begin))->cancel()) ++num_canceled;
      ++reqs_begin;
  }
  return num_canceled;
  \<close>
  The counter is bounded by the length of the range, so it is a natural number.
\<close>

function cancel_all_from ::
  "('r, 's, 'w, 'e) request_ops \<Rightarrow> 'r list \<Rightarrow> nat \<Rightarrow> nat \<Rightarrow> 'w \<Rightarrow> nat \<times> 'w" where
  "cancel_all_from ops reqs cur num_canceled w =
     (if cur < length reqs then
        (case cancel ops (reqs ! cur) w of
           (True, w') \<Rightarrow> cancel_all_from ops reqs (Suc cur) (Suc num_canceled) w'
         | (False, w') \<Rightarrow> cancel_all_from ops reqs (Suc cur) num_canceled w')
      else (num_canceled, w))"
  by pat_completeness auto
termination
  by (relation "measure (\<lambda>(ops, reqs, cur, n, w). length reqs - cur)") auto

definition cancel_all ::
  "('r, 's, 'w, 'e) request_ops \<Rightarrow> 'r list \<Rightarrow> 'w \<Rightarrow> nat \<times> 'w" where
  "cancel_all ops reqs w = cancel_all_from ops reqs 0 0 w"

subsection \<open>poll_any\<close>

text \<open>
  \<^verbatim>\<open>
  while (reqs_begin != reqs_end) {
      if ((RequestPtr(*reqs_begin))->poll()) return reqs_begin;
      ++reqs_begin;
  }
  return reqs_end;
  \<close>
\<close>

function poll_any_from ::
  "('r, 's, 'w, 'e) request_ops \<Rightarrow> 'r list \<Rightarrow> nat \<Rightarrow> 'w \<Rightarrow> nat \<times> 'w" where
  "poll_any_from ops reqs cur w =
     (if cur < length reqs then
        (case poll ops (reqs ! cur) w of
           (True, w') \<Rightarrow> (cur, w')
         | (False, w') \<Rightarrow> poll_any_from ops reqs (Suc cur) w')
      else (length reqs, w))"
  by pat_completeness auto
termination
  by (relation "measure (\<lambda>(ops, reqs, cur, w). length reqs - cur)") auto

definition poll_any ::
  "('r, 's, 'w, 'e) request_ops \<Rightarrow> 'r list \<Rightarrow> 'w \<Rightarrow> nat \<times> 'w" where
  "poll_any ops reqs w = poll_any_from ops reqs 0 w"

text \<open>
  The array overload returns the flag and writes the out-parameter \<open>index\<close>; the model
  returns the pair \<open>(flag, index)\<close>. The array must hold at least \<open>count\<close> requests
  (reading past it is undefined in the source).
  \<^verbatim>\<open>
  RequestPtr* res = poll_any(req_array, req_array + count);
  index = res - req_array;
  return res != (req_array + count);
  \<close>
\<close>

definition poll_any_array ::
  "('r, 's, 'w, 'e) request_ops \<Rightarrow> 'r list \<Rightarrow> nat \<Rightarrow> 'w \<Rightarrow> (bool \<times> nat) \<times> 'w" where
  "poll_any_array ops req_array count w =
     (case poll_any ops (take count req_array) w of
        (res, w') \<Rightarrow> ((res \<noteq> count, res), w'))"

subsection \<open>wait_any\<close>

text \<open>
  The backward walk that undoes the registrations made so far:
  \<^verbatim>\<open>while (--cur != reqs_begin) (RequestPtr(*cur))->delete_waiter(&sw);\<close>
  It returns the iterator it stops at, on which the caller calls \<open>delete_waiter\<close> once more.
  The source enters it only when \<open>cur != reqs_begin\<close>.
\<close>

function wait_any_unregister ::
  "('r, 's, 'w, 'e) request_ops \<Rightarrow> 's \<Rightarrow> 'r list \<Rightarrow> nat \<Rightarrow> 'w \<Rightarrow> nat \<times> 'w" where
  "wait_any_unregister ops sw reqs cur w =
     (if cur - 1 \<noteq> 0 then
        wait_any_unregister ops sw reqs (cur - 1) (delete_waiter ops (reqs ! (cur - 1)) sw w)
      else (cur - 1, w))"
  by pat_completeness auto
termination
  by (relation "measure (\<lambda>(ops, sw, reqs, cur, w). cur)") auto

text \<open>
  The registration scan. Its result is \<open>Some\<close> when the function returns (or throws) from
  inside the loop, \<open>Inr\<close> the iterator returned and \<open>Inl\<close> the error thrown by
  \<open>check_error\<close>; it is \<open>None\<close> when the loop runs to the end.
  \<^verbatim>\<open>
  for ( ; cur != reqs_end; cur++) {
      if ((RequestPtr(*cur))->add_waiter(&sw)) {
          result = cur;
          if (cur != reqs_begin) {
              while (--cur != reqs_begin) (RequestPtr(*cur))->delete_waiter(&sw);
              (RequestPtr(*cur))->delete_waiter(&sw);
          }
          (RequestPtr(*result))->check_error();
          return result;
      }
  }
  \<close>
\<close>

function wait_any_register ::
  "('r, 's, 'w, 'e) request_ops \<Rightarrow> 's \<Rightarrow> 'r list \<Rightarrow> nat \<Rightarrow> 'w
     \<Rightarrow> ('e + nat) option \<times> 'w" where
  "wait_any_register ops sw reqs cur w =
     (if cur < length reqs then
        (case add_waiter ops (reqs ! cur) sw w of
           (True, w1) \<Rightarrow>
             (let result = cur;
                  w3 = (if cur \<noteq> 0 then
                          (case wait_any_unregister ops sw reqs cur w1 of
                             (cur', w2) \<Rightarrow> delete_waiter ops (reqs ! cur') sw w2)
                        else w1)
              in case check_error ops (reqs ! result) w3 of
                   (Some e, w4) \<Rightarrow> (Some (Inl e), w4)
                 | (None, w4) \<Rightarrow> (Some (Inr result), w4))
         | (False, w1) \<Rightarrow> wait_any_register ops sw reqs (Suc cur) w1)
      else (None, w))"
  by pat_completeness auto
termination
  by (relation "measure (\<lambda>(ops, sw, reqs, cur, w). length reqs - cur)") auto

text \<open>
  The scan after the wakeup; \<open>result\<close> is \<open>reqs_end\<close> until a request polls true.
  \<^verbatim>\<open>
  for (cur = reqs_begin; cur != reqs_end; cur++) {
      (RequestPtr(*cur))->delete_waiter(&sw);
      if (result == reqs_end && (RequestPtr(*cur))->poll()) result = cur;
  }
  \<close>
\<close>

function wait_any_collect ::
  "('r, 's, 'w, 'e) request_ops \<Rightarrow> 's \<Rightarrow> 'r list \<Rightarrow> nat \<Rightarrow> nat \<Rightarrow> 'w \<Rightarrow> nat \<times> 'w" where
  "wait_any_collect ops sw reqs cur result w =
     (if cur < length reqs then
        (let w1 = delete_waiter ops (reqs ! cur) sw w
         in if result = length reqs then
              (case poll ops (reqs ! cur) w1 of
                 (True, w2) \<Rightarrow> wait_any_collect ops sw reqs (Suc cur) cur w2
               | (False, w2) \<Rightarrow> wait_any_collect ops sw reqs (Suc cur) result w2)
            else wait_any_collect ops sw reqs (Suc cur) result w1)
      else (result, w))"
  by pat_completeness auto
termination
  by (relation "measure (\<lambda>(ops, sw, reqs, cur, result, w). length reqs - cur)") auto

text \<open>
  \<^verbatim>\<open>
  common::onoff_switch sw;
  RequestIterator cur = reqs_begin, result = reqs_end;
  ... registration scan ...
  sw.wait_for_on();
  ... scan after the wakeup ...
  return result;
  \<close>
  The result is \<open>None\<close> when the call never returns, \<open>Some (Inl e, w')\<close> when it throws \<open>e\<close>
  and \<open>Some (Inr pos, w')\<close> when it returns the iterator \<open>pos\<close>.
\<close>

definition wait_any ::
  "('r, 's, 'w, 'e) request_ops \<Rightarrow> 'r list \<Rightarrow> 'w \<Rightarrow> (('e + nat) \<times> 'w) option" where
  "wait_any ops reqs w =
     (case new_switch ops w of
        (sw, w0) \<Rightarrow>
          (case wait_any_register ops sw reqs 0 w0 of
             (Some out, w1) \<Rightarrow> Some (out, w1)
           | (None, w1) \<Rightarrow>
               (case wait_for_on ops sw w1 of
                  None \<Rightarrow> None
                | Some w2 \<Rightarrow>
                    (case wait_any_collect ops sw reqs 0 (length reqs) w2 of
                       (result, w3) \<Rightarrow> Some (Inr result, w3)))))"

text \<open>The array overload: \<open>wait_any(req_array, req_array + count) - req_array\<close>.\<close>

definition wait_any_array ::
  "('r, 's, 'w, 'e) request_ops \<Rightarrow> 'r list \<Rightarrow> nat \<Rightarrow> 'w \<Rightarrow> (('e + nat) \<times> 'w) option" where
  "wait_any_array ops req_array count w = wait_any ops (take count req_array) w"

declare wait_all_from.simps [simp del] cancel_all_from.simps [simp del]
  poll_any_from.simps [simp del] wait_any_unregister.simps [simp del]
  wait_any_register.simps [simp del] wait_any_collect.simps [simp del]

section \<open>The calls a group operation makes\<close>

text \<open>
  To state which member functions an operation calls, on which request, in which order
  and with which result, the operations are run on instrumented member functions: each
  one behaves as the given one and appends a record of the call, with its result, to a
  log kept beside the world. A call that never returns leaves no record.
\<close>

datatype ('r, 's, 'e) call =
    Wait 'r
  | Poll 'r bool
  | Cancel 'r bool
  | Add_waiter 'r 's bool
  | Delete_waiter 'r 's
  | Check_error 'r "'e option"
  | New_switch 's
  | Wait_for_on 's

definition traced ::
  "('r, 's, 'w, 'e) request_ops \<Rightarrow> ('r, 's, 'w \<times> ('r, 's, 'e) call list, 'e) request_ops" where
  "traced ops =
     \<lparr> wait = (\<lambda>r (w, tr). case wait ops r w of
                 None \<Rightarrow> None | Some w' \<Rightarrow> Some (w', tr @ [Wait r])),
       poll = (\<lambda>r (w, tr). case poll ops r w of (b, w') \<Rightarrow> (b, (w', tr @ [Poll r b]))),
       cancel = (\<lambda>r (w, tr). case cancel ops r w of (b, w') \<Rightarrow> (b, (w', tr @ [Cancel r b]))),
       add_waiter = (\<lambda>r sw (w, tr). case add_waiter ops r sw w of
                 (b, w') \<Rightarrow> (b, (w', tr @ [Add_waiter r sw b]))),
       delete_waiter = (\<lambda>r sw (w, tr). (delete_waiter ops r sw w, tr @ [Delete_waiter r sw])),
       check_error = (\<lambda>r (w, tr). case check_error ops r w of
                 (e, w') \<Rightarrow> (e, (w', tr @ [Check_error r e]))),
       new_switch = (\<lambda>(w, tr). case new_switch ops w of
                 (sw, w') \<Rightarrow> (sw, (w', tr @ [New_switch sw]))),
       wait_for_on = (\<lambda>sw (w, tr). case wait_for_on ops sw w of
                 None \<Rightarrow> None | Some w' \<Rightarrow> Some (w', tr @ [Wait_for_on sw])) \<rparr>"

section \<open>Requests and switches\<close>

text \<open>
  Modelled from the spec: the classes \<open>Request\<close> (thrill/io/request.hpp) and
  \<open>onoff_switch\<close> (thrill/common/onoff_switch.hpp) are not among the sources; the
  definitions of this section follow sections 3, 4.1 and 5 of the specification.

  A request is \<open>Pending\<close> or in one of the terminal states \<open>Completed\<close>, \<open>Failed\<close> (with the
  stored error) and \<open>Canceled\<close>; it has a set of registered switches, each signalled when
  the request leaves \<open>Pending\<close>. \<open>started\<close> records that execution has begun, after which
  \<open>cancel\<close> no longer succeeds. A switch is one bit, off when created.

  The world holds the requests by handle, the set of switches that are on, the next
  switch to be created, and what the completion side (the other threads) will do:
  a schedule of batches of events. Member functions are atomic with respect to the
  completion side (section 5), so the events are interleaved with the caller at the
  granularity of calls: each call first lets the next batch of the schedule happen; a
  suspended call lets batch after batch happen until its condition holds, and never
  returns when the schedule runs out first.
\<close>

text \<open>
  Modelled from the spec: the state of a request (sections 3 and 4.1), which
  thrill/io/request.hpp would declare. \<open>Failed\<close> carries the stored error.
\<close>

datatype 'e status = Pending | Completed | Failed 'e | Canceled

text \<open>
  Modelled from the spec: the fields of a request (section 3): its state and its set of
  registered switches; \<open>started\<close> is "execution has begun" of section 4.1.
\<close>

record 'e request =
  state :: "'e status"
  started :: bool
  waiters :: "nat set"

text \<open>
  Modelled from the spec: what the issuing and executing side does to a request
  (section 4.1): begin its execution, finish it normally, or fail it with an error.
\<close>

datatype 'e event = Begin nat | Finish nat | Fail nat 'e

text \<open>
  Modelled from the spec: the shared state the caller and the completion side act on
  (section 5).
\<close>

record 'e world =
  requests :: "nat \<Rightarrow> 'e request"
  switched_on :: "nat set"
  next_switch :: nat
  schedule :: "'e event list list"

text \<open>Modelled from the spec: a terminal state is any state other than \<open>Pending\<close> (glossary).\<close>

definition terminal :: "'e world \<Rightarrow> nat \<Rightarrow> bool" where
  "terminal w r = (state (requests w r) \<noteq> Pending)"

text \<open>
  Modelled from the spec: the transition out of \<open>Pending\<close> (sections 3 and 4.1). A terminal
  request never changes again; a pending one takes the new state and every switch
  registered on it is set.
\<close>

definition leave_pending :: "nat \<Rightarrow> 'e status \<Rightarrow> 'e world \<Rightarrow> 'e world" where
  "leave_pending r st w =
     (if terminal w r then w
      else w\<lparr>requests := (requests w)(r := (requests w r)\<lparr>state := st\<rparr>),
             switched_on := switched_on w \<union> waiters (requests w r)\<rparr>)"

text \<open>Modelled from the spec: the effect of one event of the completion side.\<close>

fun occur :: "'e event \<Rightarrow> 'e world \<Rightarrow> 'e world" where
  "occur (Begin r) w = w\<lparr>requests := (requests w)(r := (requests w r)\<lparr>started := True\<rparr>)\<rparr>"
| "occur (Finish r) w = leave_pending r Completed w"
| "occur (Fail r e) w = leave_pending r (Failed e) w"

text \<open>Modelled from the spec: a batch of events, in order.\<close>

fun occur_all :: "'e event list \<Rightarrow> 'e world \<Rightarrow> 'e world" where
  "occur_all [] w = w"
| "occur_all (ev # evs) w = occur_all evs (occur ev w)"


text \<open>
  Modelled from the spec: what the completion side did since the caller's previous call
  (section 5: the two sides serialize their accesses to a request).
\<close>

definition tick :: "'e world \<Rightarrow> 'e world" where
  "tick w = (case schedule w of
               [] \<Rightarrow> w
             | b # bs \<Rightarrow> occur_all b (w\<lparr>schedule := bs\<rparr>))"

text \<open>
  Modelled from the spec: suspension until a condition holds (sections 3 and 4.1). The
  caller resumes in the first world, between batches, in which the condition holds;
  the batches not yet consumed stay in the schedule. \<open>None\<close>: the schedule ran out with
  the condition false, and nothing will ever make it true.
\<close>

fun await :: "('e world \<Rightarrow> bool) \<Rightarrow> 'e event list list \<Rightarrow> 'e world \<Rightarrow> 'e world option" where
  "await c [] w = (if c w then Some (w\<lparr>schedule := []\<rparr>) else None)"
| "await c (b # bs) w =
     (if c w then Some (w\<lparr>schedule := b # bs\<rparr>) else await c bs (occur_all b w))"

text \<open>
  Modelled from the spec: \<open>wait()\<close> "blocks the calling thread until the Request leaves
  Pending; no-op if already terminal; does not itself raise the stored error".
\<close>

definition request_wait :: "nat \<Rightarrow> 'e world \<Rightarrow> 'e world option" where
  "request_wait r w = await (\<lambda>w'. terminal w' r) (schedule w) w"

text \<open>Modelled from the spec: \<open>poll()\<close> "non-blocking; returns whether the Request is terminal".\<close>

definition request_poll :: "nat \<Rightarrow> 'e world \<Rightarrow> bool \<times> 'e world" where
  "request_poll r w = (let w' = tick w in (terminal w' r, w'))"

text \<open>
  Modelled from the spec: \<open>cancel()\<close> "attempts to transition to Canceled; returns whether
  it succeeded; never blocks"; it succeeds only "before execution begins".
\<close>

definition request_cancel :: "nat \<Rightarrow> 'e world \<Rightarrow> bool \<times> 'e world" where
  "request_cancel r w =
     (let w' = tick w
      in if \<not> terminal w' r \<and> \<not> started (requests w' r)
         then (True, leave_pending r Canceled w') else (False, w'))"

text \<open>
  Modelled from the spec: \<open>add_waiter(switch)\<close> "returns true if the Request was already
  terminal at call time - in that case no registration occurs"; it "returns false if the
  Request was still Pending and the registration was recorded".
\<close>

definition request_add_waiter :: "nat \<Rightarrow> nat \<Rightarrow> 'e world \<Rightarrow> bool \<times> 'e world" where
  "request_add_waiter r sw w =
     (let w' = tick w
      in if terminal w' r then (True, w')
         else (False, w'\<lparr>requests := (requests w')(r := (requests w' r)
                 \<lparr>waiters := insert sw (waiters (requests w' r))\<rparr>)\<rparr>))"

text \<open>
  Modelled from the spec: \<open>delete_waiter(switch)\<close> "unregisters switch if still present;
  safe to call even if the Request already completed".
\<close>

definition request_delete_waiter :: "nat \<Rightarrow> nat \<Rightarrow> 'e world \<Rightarrow> 'e world" where
  "request_delete_waiter r sw w =
     (let w' = tick w
      in w'\<lparr>requests := (requests w')(r := (requests w' r)
               \<lparr>waiters := waiters (requests w' r) - {sw}\<rparr>)\<rparr>)"

text \<open>
  Modelled from the spec: \<open>check_error()\<close> "if state is Failed, raises/returns the stored
  error to the caller; no-op otherwise". The group operations discard what it returns,
  so the stored error reaches their caller only by being thrown (section 7: it
  "propagates synchronously out of the group operation that triggered it").
\<close>

definition request_check_error :: "nat \<Rightarrow> 'e world \<Rightarrow> 'e option \<times> 'e world" where
  "request_check_error r w =
     (let w' = tick w
      in case state (requests w' r) of
           Failed e \<Rightarrow> (Some e, w')
         | _ \<Rightarrow> (None, w'))"

text \<open>
  Modelled from the spec: the constructor of a switch, "a single bit, initially off"
  (section 3); each call creates a switch that did not exist before.
\<close>

definition switch_new :: "'e world \<Rightarrow> nat \<times> 'e world" where
  "switch_new w =
     (next_switch w,
      w\<lparr>next_switch := Suc (next_switch w), switched_on := switched_on w - {next_switch w}\<rparr>)"

text \<open>Modelled from the spec: \<open>wait_for_on\<close>, the "block-until-on operation" of a switch.\<close>

definition switch_wait_for_on :: "nat \<Rightarrow> 'e world \<Rightarrow> 'e world option" where
  "switch_wait_for_on sw w = await (\<lambda>w'. sw \<in> switched_on w') (schedule w) w"

text \<open>Modelled from the spec: the member functions above, as the parameter of the group operations.\<close>

definition io_requests :: "(nat, nat, 'e world, 'e) request_ops" where
  "io_requests =
     \<lparr> wait = request_wait, poll = request_poll, cancel = request_cancel,
       add_waiter = request_add_waiter, delete_waiter = request_delete_waiter,
       check_error = request_check_error, new_switch = switch_new,
       wait_for_on = switch_wait_for_on \<rparr>"

text \<open>
  A switch that has not been created yet is registered nowhere; \<open>switch_new\<close> then returns
  a switch that no request can signal before it is registered by its owner.
\<close>

definition no_stale_waiters :: "'e world \<Rightarrow> bool" where
  "no_stale_waiters w = (\<forall>r. \<forall>sw \<in> waiters (requests w r). sw < next_switch w)"

text \<open>
  \<open>signals_only sw S w\<close>: in \<open>w\<close> the switch \<open>sw\<close> is registered only on requests of \<open>S\<close>,
  and it is on only if a request of \<open>S\<close> is terminal.
\<close>

definition signals_only :: "nat \<Rightarrow> nat set \<Rightarrow> 'e world \<Rightarrow> bool" where
  "signals_only sw S w =
     ((sw \<in> switched_on w \<longrightarrow> (\<exists>r \<in> S. terminal w r)) \<and>
      (\<forall>r. sw \<in> waiters (requests w r) \<longrightarrow> r \<in> S))"

text \<open>
  \<open>armed sw R w\<close>: the switch \<open>sw\<close> is registered on every request of \<open>R\<close>, and it is on
  if one of them is terminal.
\<close>

definition armed :: "nat \<Rightarrow> nat set \<Rightarrow> 'e world \<Rightarrow> bool" where
  "armed sw R w =
     (\<forall>r \<in> R. sw \<in> waiters (requests w r) \<and> (terminal w r \<longrightarrow> sw \<in> switched_on w))"

section \<open>Reading a log, and the contract of registration\<close>

text \<open>The calls of \<open>check_error\<close> in a log: the request and what was thrown.\<close>

fun check_error_calls :: "('r, 's, 'e) call list \<Rightarrow> ('r \<times> 'e option) list" where
  "check_error_calls [] = []"
| "check_error_calls (Check_error r e # cs) = (r, e) # check_error_calls cs"
| "check_error_calls (c # cs) = check_error_calls cs"

text \<open>
  \<open>tracks_waiters ops sw reg\<close>: the set \<open>reg w\<close> bounds the requests on which \<open>sw\<close> is
  registered in \<open>w\<close>. Only an \<open>add_waiter\<close> that answers false can add its request to it,
  \<open>delete_waiter\<close> removes its request, the other calls add nothing.
\<close>

definition tracks_waiters ::
  "('r, 's, 'w, 'e) request_ops \<Rightarrow> 's \<Rightarrow> ('w \<Rightarrow> 'r set) \<Rightarrow> bool" where
  "tracks_waiters ops sw reg =
     ((\<forall>r w b w'. add_waiter ops r sw w = (b, w') \<longrightarrow>
          reg w' \<subseteq> (if b then reg w else insert r (reg w))) \<and>
      (\<forall>r w. reg (delete_waiter ops r sw w) \<subseteq> reg w - {r}) \<and>
      (\<forall>r w b w'. poll ops r w = (b, w') \<longrightarrow> reg w' \<subseteq> reg w) \<and>
      (\<forall>r w e w'. check_error ops r w = (e, w') \<longrightarrow> reg w' \<subseteq> reg w) \<and>
      (\<forall>w w'. wait_for_on ops sw w = Some w' \<longrightarrow> reg w' \<subseteq> reg w))"

section \<open>Example worlds\<close>

text \<open>Every request pending and not begun, no switch, nothing scheduled.\<close>

definition fresh_request :: "'e request" where
  "fresh_request = \<lparr>state = Pending, started = False, waiters = {}\<rparr>"

definition idle_world :: "'e world" where
  "idle_world = \<lparr>requests = (\<lambda>r. fresh_request), switched_on = {}, next_switch = 0, schedule = []\<rparr>"

text \<open>Request 3 has completed; the others are pending.\<close>

definition poll_example :: "string world" where
  "poll_example = idle_world\<lparr>requests := (\<lambda>r. fresh_request)(3 := fresh_request\<lparr>state := Completed\<rparr>)\<rparr>"


text \<open>Request 2 has completed and request 3 is being executed; request 1 can be canceled.\<close>

definition cancel_example :: "string world" where
  "cancel_example = idle_world\<lparr>requests := (\<lambda>r. fresh_request)
      (2 := fresh_request\<lparr>state := Completed\<rparr>, 3 := fresh_request\<lparr>started := True\<rparr>)\<rparr>"




definition error_example :: "string world" where
  "error_example = idle_world\<lparr>schedule := [[], [Fail 1 ''io'']]\<rparr>"

definition empty_example :: "string world" where
  "empty_example = idle_world\<lparr>schedule := [[], [Finish 1]]\<rparr>"

text \<open>
  Switch 0 exists and is registered on request 7 by another caller; request 3 has
  completed.
\<close>

definition busy_example :: "string world" where
  "busy_example = idle_world\<lparr>requests := (\<lambda>r. fresh_request)
      (3 := fresh_request\<lparr>state := Completed\<rparr>, 7 := fresh_request\<lparr>waiters := {0}\<rparr>),
      next_switch := 1\<rparr>"



section \<open>Properties\<close>

subsection \<open>Unfolding the loops and the instrumented calls\<close>

lemma traced_sel [simp]:
  "wait (traced ops) r (w, tr) = (case wait ops r w of None \<Rightarrow> None | Some w' \<Rightarrow> Some (w', tr @ [Wait r]))"
  "poll (traced ops) r (w, tr) = (case poll ops r w of (b, w') \<Rightarrow> (b, (w', tr @ [Poll r b])))"
  "cancel (traced ops) r (w, tr) = (case cancel ops r w of (b, w') \<Rightarrow> (b, (w', tr @ [Cancel r b])))"
  "add_waiter (traced ops) r sw (w, tr) = (case add_waiter ops r sw w of (b, w') \<Rightarrow> (b, (w', tr @ [Add_waiter r sw b])))"
  "delete_waiter (traced ops) r sw (w, tr) = (delete_waiter ops r sw w, tr @ [Delete_waiter r sw])"
  "check_error (traced ops) r (w, tr) = (case check_error ops r w of (e, w') \<Rightarrow> (e, (w', tr @ [Check_error r e])))"
  "new_switch (traced ops) (w, tr) = (case new_switch ops w of (sw, w') \<Rightarrow> (sw, (w', tr @ [New_switch sw])))"
  "wait_for_on (traced ops) sw (w, tr) = (case wait_for_on ops sw w of None \<Rightarrow> None | Some w' \<Rightarrow> Some (w', tr @ [Wait_for_on sw]))"
  by (simp_all add: traced_def)

lemma wait_all_from_step [simp]:
  "cur < length reqs \<Longrightarrow> wait_all_from ops reqs cur w =
     (case wait ops (reqs ! cur) w of None \<Rightarrow> None
      | Some w' \<Rightarrow> wait_all_from ops reqs (Suc cur) w')"
  "\<not> cur < length reqs \<Longrightarrow> wait_all_from ops reqs cur w = Some w"
  by (simp_all add: wait_all_from.simps [of ops reqs cur])

lemma cancel_all_from_step [simp]:
  "cur < length reqs \<Longrightarrow> cancel_all_from ops reqs cur n w =
     (case cancel ops (reqs ! cur) w of
        (b, w') \<Rightarrow> cancel_all_from ops reqs (Suc cur) (if b then Suc n else n) w')"
  "\<not> cur < length reqs \<Longrightarrow> cancel_all_from ops reqs cur n w = (n, w)"
  by (simp_all add: cancel_all_from.simps [of ops reqs cur] split: prod.split bool.split)

lemma poll_any_from_step [simp]:
  "cur < length reqs \<Longrightarrow> poll_any_from ops reqs cur w =
     (case poll ops (reqs ! cur) w of
        (b, w') \<Rightarrow> if b then (cur, w') else poll_any_from ops reqs (Suc cur) w')"
  "\<not> cur < length reqs \<Longrightarrow> poll_any_from ops reqs cur w = (length reqs, w)"
  by (simp_all add: poll_any_from.simps [of ops reqs cur] split: prod.split bool.split)

lemma poll_any_from_calls:
  "poll_any_from (traced ops) reqs cur (w, tr) = (k, (w', tr')) \<Longrightarrow> cur \<le> length reqs \<Longrightarrow>
   cur \<le> k \<and> k \<le> length reqs \<and>
   tr' = tr @ map (\<lambda>r. Poll r False) (take (k - cur) (drop cur reqs))
            @ (if k < length reqs then [Poll (reqs ! k) True] else [])"
proof (induction "length reqs - cur" arbitrary: cur w tr)
  case 0
  then show ?case by simp
next
  case (Suc n)
  then have lt: "cur < length reqs" by simp
  obtain b w1 where p: "poll ops (reqs ! cur) w = (b, w1)" by (cases "poll ops (reqs ! cur) w")
  show ?case
  proof (cases b)
    case True
    with Suc.prems p lt show ?thesis
      by auto
  next
    case False
    with Suc.prems p lt
    have rec: "poll_any_from (traced ops) reqs (Suc cur) (w1, tr @ [Poll (reqs ! cur) False]) = (k, (w', tr'))"
      by simp
    have "n = length reqs - Suc cur" using Suc.hyps(2) by simp
    from Suc.hyps(1) [OF this rec] lt
    have ih: "Suc cur \<le> k" "k \<le> length reqs"
      "tr' = (tr @ [Poll (reqs ! cur) False]) @ map (\<lambda>r. Poll r False) (take (k - Suc cur) (drop (Suc cur) reqs))
            @ (if k < length reqs then [Poll (reqs ! k) True] else [])" by simp_all
    have "take (k - cur) (drop cur reqs) = reqs ! cur # take (k - Suc cur) (drop (Suc cur) reqs)"
      using ih(1) lt by (metis Cons_nth_drop_Suc Suc_diff_le diff_Suc_Suc take_Suc_Cons)
    with ih show ?thesis by simp
  qed
qed

lemma cancel_all_from_calls:
  "cancel_all_from (traced ops) reqs cur n (w, tr) = (m, (w', tr')) \<Longrightarrow> cur \<le> length reqs \<Longrightarrow>
   \<exists>bs. length bs = length reqs - cur \<and>
        tr' = tr @ map (\<lambda>(r, b). Cancel r b) (zip (drop cur reqs) bs) \<and>
        m = n + length (filter (\<lambda>b. b) bs)"
proof (induction "length reqs - cur" arbitrary: cur n w tr)
  case 0
  then show ?case by simp
next
  case (Suc k)
  then have lt: "cur < length reqs" by simp
  obtain b w1 where c: "cancel ops (reqs ! cur) w = (b, w1)" by (cases "cancel ops (reqs ! cur) w")
  have k: "k = length reqs - Suc cur" using Suc.hyps(2) by simp
  have dr: "drop cur reqs = reqs ! cur # drop (Suc cur) reqs"
    using lt by (simp add: Cons_nth_drop_Suc)
  from Suc.prems c lt
  have rec: "cancel_all_from (traced ops) reqs (Suc cur) (if b then Suc n else n)
               (w1, tr @ [Cancel (reqs ! cur) b]) = (m, (w', tr'))"
    by simp
  from Suc.hyps(1) [OF k rec] lt obtain bs where bs:
    "length bs = length reqs - Suc cur"
    "tr' = (tr @ [Cancel (reqs ! cur) b]) @ map (\<lambda>(r, b). Cancel r b) (zip (drop (Suc cur) reqs) bs)"
    "m = (if b then Suc n else n) + length (filter (\<lambda>b. b) bs)"
    by auto
  show ?case
    by (rule exI [of _ "b # bs"]) (use bs lt dr in auto)
qed


lemma poll_any_from_plain:
  "poll_any_from (traced ops) reqs cur (w, tr) = (k, (w', tr')) \<Longrightarrow>
   poll_any_from ops reqs cur w = (k, w')"
proof (induction "length reqs - cur" arbitrary: cur w tr)
  case 0
  then show ?case by simp
next
  case (Suc n)
  then have lt: "cur < length reqs" by simp
  obtain b w1 where p: "poll ops (reqs ! cur) w = (b, w1)" by (cases "poll ops (reqs ! cur) w")
  show ?case
  proof (cases b)
    case True
    with Suc.prems p lt show ?thesis
      by auto
  next
    case False
    with Suc.prems p lt
    have rec: "poll_any_from (traced ops) reqs (Suc cur) (w1, tr @ [Poll (reqs ! cur) False]) = (k, (w', tr'))"
      by simp
    have "n = length reqs - Suc cur" using Suc.hyps(2) by simp
    from Suc.hyps(1) [OF this rec] p lt False show ?thesis
      by simp
  qed
qed

lemma cancel_all_from_plain:
  "cancel_all_from (traced ops) reqs cur n (w, tr) = (m, (w', tr')) \<Longrightarrow>
   cancel_all_from ops reqs cur n w = (m, w')"
proof (induction "length reqs - cur" arbitrary: cur n w tr)
  case 0
  then show ?case by simp
next
  case (Suc k)
  then have lt: "cur < length reqs" by simp
  obtain b w1 where c: "cancel ops (reqs ! cur) w = (b, w1)" by (cases "cancel ops (reqs ! cur) w")
  have k: "k = length reqs - Suc cur" using Suc.hyps(2) by simp
  from Suc.prems c lt
  have rec: "cancel_all_from (traced ops) reqs (Suc cur) (if b then Suc n else n)
               (w1, tr @ [Cancel (reqs ! cur) b]) = (m, (w', tr'))"
    by simp
  from Suc.hyps(1) [OF k rec] c lt show ?case
    by simp
qed

subsection \<open>poll_any\<close>

text \<open>
  C5. \<open>poll_any\<close> scans the range in order and calls nothing but \<open>poll\<close>: on the requests
  before the returned position, each of which answered false, and, when the returned
  position is inside the range, on the request there, which answered true. So it returns
  the lowest position whose \<open>poll\<close> is true, and it returns the end of the range exactly
  when every request of the range was polled and answered false. It cannot block: its
  only calls are calls of \<open>poll\<close>, and it returns a position on every input. The
  run without the log returns the same position.
\<close>

theorem poll_any_first_true:
  assumes "poll_any (traced ops) reqs (w, []) = (pos, (w', tr))"
  shows "poll_any ops reqs w = (pos, w') \<and> pos \<le> length reqs \<and>
         tr = map (\<lambda>r. Poll r False) (take pos reqs)
              @ (if pos < length reqs then [Poll (reqs ! pos) True] else []) \<and>
         (pos = length reqs) = (tr = map (\<lambda>r. Poll r False) reqs)"
proof -
  from assms have run: "poll_any_from (traced ops) reqs 0 (w, []) = (pos, (w', tr))"
    by (simp add: poll_any_def)
  from poll_any_from_calls [OF run] have
    le: "pos \<le> length reqs" and
    tr: "tr = map (\<lambda>r. Poll r False) (take pos reqs)
              @ (if pos < length reqs then [Poll (reqs ! pos) True] else [])"
    by simp_all
  have "(pos = length reqs) = (tr = map (\<lambda>r. Poll r False) reqs)"
  proof (cases "pos < length reqs")
    case True
    then have "length tr = Suc pos" using tr by simp
    moreover have "tr ! pos = Poll (reqs ! pos) True" using tr True by (simp add: nth_append)
    ultimately show ?thesis using True by auto
  next
    case False
    then show ?thesis using le tr by simp
  qed
  with le tr poll_any_from_plain [OF run] show ?thesis by (simp add: poll_any_def)
qed

theorem poll_any_first_true_witness:
  "poll_any (traced io_requests) [1, 2, 3]
     (idle_world\<lparr>requests := (\<lambda>r. fresh_request)(2 := fresh_request\<lparr>state := Failed ''io''\<rparr>, 3 := fresh_request\<lparr>state := Completed\<rparr>)\<rparr>, [])
   = (1, (idle_world\<lparr>requests := (\<lambda>r. fresh_request)(2 := fresh_request\<lparr>state := Failed ''io''\<rparr>, 3 := fresh_request\<lparr>state := Completed\<rparr>)\<rparr>,
         [Poll 1 False, Poll 2 True]))
   \<and> (1::nat) \<le> length [1::nat, 2, 3]
   \<and> ((1::nat) = length [1::nat, 2, 3]) = ([Poll 1 False, Poll 2 True :: (nat, nat, string) call] = map (\<lambda>r. Poll r False) [1, 2, 3])"
proof -
  let ?w = "idle_world\<lparr>requests := (\<lambda>r. fresh_request)(2 := fresh_request\<lparr>state := Failed ''io''\<rparr>, 3 := fresh_request\<lparr>state := Completed\<rparr>)\<rparr> :: string world"
  have run: "poll_any (traced io_requests) [1, 2, 3] (?w, []) = (1, (?w, [Poll 1 False, Poll 2 True]))"
    by (simp add: poll_any_def io_requests_def request_poll_def tick_def
        terminal_def idle_world_def fresh_request_def)
  from poll_any_first_true [OF run] run show ?thesis by simp
qed

subsection \<open>cancel_all\<close>

text \<open>
  C6. \<open>cancel_all\<close> calls \<open>cancel\<close> on every request of the range, in range order,
  whatever the earlier calls answered, and calls nothing else; the number it returns
  is the number of those calls that answered true. On the empty range it returns 0 and
  leaves the world as it is. The run without the log returns the same number.
\<close>

theorem cancel_all_counts:
  assumes "cancel_all (traced ops) reqs (w, []) = (n, (w', tr))"
  shows "cancel_all ops reqs w = (n, w') \<and>
         (\<exists>bs. length bs = length reqs \<and>
               tr = map (\<lambda>(r, b). Cancel r b) (zip reqs bs) \<and>
               n = length (filter (\<lambda>b. b) bs)) \<and>
         cancel_all ops [] w = (0, w)"
proof -
  from assms have run: "cancel_all_from (traced ops) reqs 0 0 (w, []) = (n, (w', tr))"
    by (simp add: cancel_all_def)
  from cancel_all_from_calls [OF run] cancel_all_from_plain [OF run]
  show ?thesis by (simp add: cancel_all_def)
qed

theorem cancel_all_counts_witness:
  "cancel_all (traced io_requests) [1, 2, 3] (cancel_example, [])
     = (1, (cancel_example\<lparr>requests := (requests cancel_example)(1 := fresh_request\<lparr>state := Canceled\<rparr>)\<rparr>,
            [Cancel 1 True, Cancel 2 False, Cancel 3 False]))
   \<and> (\<exists>bs. length bs = length [1::nat, 2, 3] \<and>
          [Cancel 1 True, Cancel 2 False, Cancel 3 False :: (nat, nat, string) call]
             = map (\<lambda>(r, b). Cancel r b) (zip [1, 2, 3] bs) \<and>
          (1::nat) = length (filter (\<lambda>b. b) bs))"
proof -
  have run: "cancel_all (traced io_requests) [1, 2, 3] (cancel_example, [])
     = (1, (cancel_example\<lparr>requests := (requests cancel_example)(1 := fresh_request\<lparr>state := Canceled\<rparr>)\<rparr>,
            [Cancel 1 True, Cancel 2 False, Cancel 3 False]))"
    by (simp add: cancel_all_def io_requests_def request_cancel_def tick_def leave_pending_def
        terminal_def cancel_example_def idle_world_def fresh_request_def)
  from cancel_all_counts [OF run] run show ?thesis by simp
qed

subsection \<open>The array overload of poll_any\<close>

text \<open>
  C10. For an array of at least \<open>count\<close> requests, the array overload of \<open>poll_any\<close>
  yields the position returned by \<open>poll_any\<close> on the first \<open>count\<close> requests as its
  index in every case. The flag is true exactly when that index is below \<open>count\<close>,
  which is exactly when some call of \<open>poll\<close> answered true; when the flag is false
  the index is \<open>count\<close>, one past the last valid index.
\<close>

theorem poll_any_array_index:
  assumes "count \<le> length req_array"
    and "poll_any_array (traced ops) req_array count (w, []) = ((found, index), (w', tr))"
  shows "poll_any (traced ops) (take count req_array) (w, []) = (index, (w', tr)) \<and>
         index \<le> count \<and> found = (index < count) \<and> (\<not> found \<longrightarrow> index = count) \<and>
         found = (\<exists>r. Poll r True \<in> set tr)"
proof -
  from assms(2) have run: "poll_any (traced ops) (take count req_array) (w, []) = (index, (w', tr))"
    and f: "found = (index \<noteq> count)"
    by (auto simp add: poll_any_array_def split: prod.splits)
  from run have "poll_any_from (traced ops) (take count req_array) 0 (w, []) = (index, (w', tr))"
    by (simp add: poll_any_def)
  from poll_any_from_calls [OF this] assms(1) have
    le: "index \<le> count" and
    tr: "tr = map (\<lambda>r. Poll r False) (take index (take count req_array))
              @ (if index < count then [Poll (take count req_array ! index) True] else [])"
    by (simp_all add: min_absorb2)
  from tr have "(\<exists>r. Poll r True \<in> set tr) = (index < count)" by auto
  with run le f show ?thesis by auto
qed

theorem poll_any_array_index_witness:
  "(2::nat) \<le> length [1::nat, 2, 3]
   \<and> poll_any_array (traced io_requests) [1, 2, 3] 2 (poll_example, [])
        = ((False, 2), (poll_example, [Poll 1 False, Poll 2 False]))
   \<and> poll_any (traced io_requests) (take 2 [1, 2, 3]) (poll_example, [])
        = (2, (poll_example, [Poll 1 False, Poll 2 False]))
   \<and> False = (\<exists>r. Poll r True \<in> set [Poll 1 False, Poll 2 False :: (nat, nat, string) call])"
proof -
  have len: "(2::nat) \<le> length [1::nat, 2, 3]" by simp
  have run: "poll_any_array (traced io_requests) [1, 2, 3] 2 (poll_example, [])
        = ((False, 2), (poll_example, [Poll 1 False, Poll 2 False]))"
    by (simp add: poll_any_array_def poll_any_def io_requests_def request_poll_def tick_def
        terminal_def poll_example_def idle_world_def fresh_request_def)
  from poll_any_array_index [OF len run] len run show ?thesis by simp
qed

subsection \<open>wait_all\<close>

lemma wait_all_from_calls:
  "wait_all_from (traced ops) reqs cur (w, tr) = Some (w', tr') \<Longrightarrow>
   tr' = tr @ map Wait (drop cur reqs) \<and> wait_all_from ops reqs cur w = Some w'"
proof (induction "length reqs - cur" arbitrary: cur w tr)
  case 0
  then show ?case by simp
next
  case (Suc n)
  then have lt: "cur < length reqs" by simp
  from Suc.prems lt obtain w1 where
    w1: "wait ops (reqs ! cur) w = Some w1" and
    rec: "wait_all_from (traced ops) reqs (Suc cur) (w1, tr @ [Wait (reqs ! cur)]) = Some (w', tr')"
    by (auto split: option.splits)
  have "n = length reqs - Suc cur" using Suc.hyps(2) by simp
  from Suc.hyps(1) [OF this rec] w1 lt show ?case
    by (simp add: Cons_nth_drop_Suc [symmetric])
qed



subsection \<open>The completion side\<close>

lemma io_requests_sel [simp]:
  "wait io_requests = request_wait" "poll io_requests = request_poll"
  "cancel io_requests = request_cancel" "add_waiter io_requests = request_add_waiter"
  "delete_waiter io_requests = request_delete_waiter"
  "check_error io_requests = request_check_error" "new_switch io_requests = switch_new"
  "wait_for_on io_requests = switch_wait_for_on"
  by (simp_all add: io_requests_def)

lemma occur_schedule [simp]:
  "occur ev (w\<lparr>schedule := s\<rparr>) = (occur ev w)\<lparr>schedule := s\<rparr>"
  by (cases ev) (simp_all add: leave_pending_def terminal_def)

lemma occur_all_schedule [simp]:
  "occur_all evs (w\<lparr>schedule := s\<rparr>) = (occur_all evs w)\<lparr>schedule := s\<rparr>"
  by (induction evs arbitrary: w) simp_all

lemma occur_terminal: "terminal w r \<Longrightarrow> terminal (occur ev w) r"
  by (cases ev) (auto simp add: leave_pending_def terminal_def)

lemma occur_all_terminal: "terminal w r \<Longrightarrow> terminal (occur_all evs w) r"
  by (induction evs arbitrary: w) (simp_all add: occur_terminal)

lemma terminal_schedule [simp]: "terminal (w\<lparr>schedule := s\<rparr>) r = terminal w r"
  by (simp add: terminal_def)

lemma tick_terminal: "terminal w r \<Longrightarrow> terminal (tick w) r"
  by (simp add: tick_def occur_all_terminal split: list.split)

lemma occur_waiters [simp]: "waiters (requests (occur ev w) r) = waiters (requests w r)"
  by (cases ev) (simp_all add: leave_pending_def)

lemma occur_all_waiters [simp]: "waiters (requests (occur_all evs w) r) = waiters (requests w r)"
  by (induction evs arbitrary: w) simp_all

lemma tick_waiters [simp]: "waiters (requests (tick w) r) = waiters (requests w r)"
  by (simp add: tick_def split: list.split)

lemma occur_next_switch [simp]: "next_switch (occur ev w) = next_switch w"
  by (cases ev) (simp_all add: leave_pending_def)

lemma occur_all_next_switch [simp]: "next_switch (occur_all evs w) = next_switch w"
  by (induction evs arbitrary: w) simp_all

lemma tick_next_switch [simp]: "next_switch (tick w) = next_switch w"
  by (simp add: tick_def split: list.split)

text \<open>What a suspended call returns: the world after some batches, in which its condition holds.\<close>

lemma await_result:
  "await c bs w = Some w' \<Longrightarrow>
   \<exists>k \<le> length bs. w' = (occur_all (concat (take k bs)) w)\<lparr>schedule := drop k bs\<rparr> \<and>
                   c (occur_all (concat (take k bs)) w)"
proof (induction bs arbitrary: w)
  case Nil
  then show ?case by (auto split: if_splits)
next
  case (Cons b bs)
  show ?case
  proof (cases "c w")
    case True
    with Cons.prems show ?thesis by (intro exI [of _ 0]) auto
  next
    case False
    with Cons.prems have "await c bs (occur_all b w) = Some w'" by simp
    from Cons.IH [OF this] obtain k where k: "k \<le> length bs"
      "w' = (occur_all (concat (take k bs)) (occur_all b w))\<lparr>schedule := drop k bs\<rparr>"
      "c (occur_all (concat (take k bs)) (occur_all b w))" by blast
    have app: "\<And>xs ys v. occur_all (xs @ ys) v = occur_all ys (occur_all xs v)"
      subgoal for xs ys v by (induction xs arbitrary: v) simp_all done
    show ?thesis using k by (intro exI [of _ "Suc k"]) (simp add: app)
  qed
qed






subsection \<open>wait_any: the calls of each loop\<close>

lemma wait_any_unregister_step [simp]:
  "cur - 1 \<noteq> 0 \<Longrightarrow> wait_any_unregister ops sw reqs cur w =
     wait_any_unregister ops sw reqs (cur - 1) (delete_waiter ops (reqs ! (cur - 1)) sw w)"
  "cur - 1 = 0 \<Longrightarrow> wait_any_unregister ops sw reqs cur w = (0, w)"
  by (simp_all add: wait_any_unregister.simps [of ops sw reqs cur])

lemma wait_any_register_step [simp]:
  "cur < length reqs \<Longrightarrow> wait_any_register ops sw reqs cur w =
     (case add_waiter ops (reqs ! cur) sw w of
        (b, w1) \<Rightarrow>
          if b then
            (let w3 = (if cur \<noteq> 0 then
                         (case wait_any_unregister ops sw reqs cur w1 of
                            (cur', w2) \<Rightarrow> delete_waiter ops (reqs ! cur') sw w2)
                       else w1)
             in case check_error ops (reqs ! cur) w3 of
                  (err, w4) \<Rightarrow> (Some (case err of None \<Rightarrow> Inr cur | Some e \<Rightarrow> Inl e), w4))
          else wait_any_register ops sw reqs (Suc cur) w1)"
  "\<not> cur < length reqs \<Longrightarrow> wait_any_register ops sw reqs cur w = (None, w)"
  by (simp_all add: wait_any_register.simps [of ops sw reqs cur] Let_def
      split: prod.split bool.split option.split)

lemma wait_any_collect_step [simp]:
  "cur < length reqs \<Longrightarrow> wait_any_collect ops sw reqs cur result w =
     (if result = length reqs then
        (case poll ops (reqs ! cur) (delete_waiter ops (reqs ! cur) sw w) of
           (b, w2) \<Rightarrow> wait_any_collect ops sw reqs (Suc cur) (if b then cur else result) w2)
      else wait_any_collect ops sw reqs (Suc cur) result (delete_waiter ops (reqs ! cur) sw w))"
  "\<not> cur < length reqs \<Longrightarrow> wait_any_collect ops sw reqs cur result w = (result, w)"
  by (simp_all add: wait_any_collect.simps [of ops sw reqs cur] Let_def
      split: prod.split bool.split)

lemma wait_any_unregister_calls:
  "wait_any_unregister (traced ops) sw reqs cur (w, tr) = (c, (w', tr')) \<Longrightarrow>
   c = 0 \<and> tr' = tr @ map (\<lambda>j. Delete_waiter (reqs ! j) sw) (rev [1..<cur]) \<and>
   wait_any_unregister ops sw reqs cur w = (0, w')"
proof (induction cur arbitrary: w tr)
  case 0
  then show ?case by simp
next
  case (Suc n)
  show ?case
  proof (cases n)
    case 0
    with Suc.prems show ?thesis by simp
  next
    case (Suc m)
    with Suc.prems have
      "wait_any_unregister (traced ops) sw reqs n
         (delete_waiter ops (reqs ! n) sw w, tr @ [Delete_waiter (reqs ! n) sw]) = (c, (w', tr'))"
      by simp
    from Suc.IH [OF this] Suc show ?thesis by simp
  qed
qed

text \<open>The whole undo block: the walk, then the call on the iterator it stopped at.\<close>

lemma wait_any_undo_calls:
  assumes "cur \<le> length reqs"
    and "(if cur \<noteq> 0 then
            (case wait_any_unregister (traced ops) sw reqs cur (w, tr) of
               (cur', w2) \<Rightarrow> delete_waiter (traced ops) (reqs ! cur') sw w2)
          else (w, tr)) = (w', tr')"
  shows "tr' = tr @ map (\<lambda>r. Delete_waiter r sw) (rev (take cur reqs)) \<and>
         (if cur \<noteq> 0 then
            (case wait_any_unregister ops sw reqs cur w of
               (cur', w2) \<Rightarrow> delete_waiter ops (reqs ! cur') sw w2)
          else w) = w'"
proof (cases "cur = 0")
  case True
  with assms show ?thesis by simp
next
  case False
  obtain c w2 tr2 where u: "wait_any_unregister (traced ops) sw reqs cur (w, tr) = (c, (w2, tr2))"
    by (metis surj_pair)
  from wait_any_unregister_calls [OF u] have
    c: "c = 0" and tr2: "tr2 = tr @ map (\<lambda>j. Delete_waiter (reqs ! j) sw) (rev [1..<cur])"
    and plain: "wait_any_unregister ops sw reqs cur w = (0, w2)" by simp_all
  from assms(2) False u c have w': "w' = delete_waiter ops (reqs ! 0) sw w2"
    and tr': "tr' = tr2 @ [Delete_waiter (reqs ! 0) sw]" by simp_all
  have "[0..<cur] = 0 # [1..<cur]" using False by (simp add: upt_conv_Cons)
  then have "rev [0..<cur] = rev [1..<cur] @ [0]" by simp
  moreover have "take cur reqs = map ((!) reqs) [0..<cur]"
    using assms(1) by (intro nth_equalityI) simp_all
  ultimately have eq: "map (\<lambda>r. Delete_waiter r sw) (rev (take cur reqs))
      = map (\<lambda>j. Delete_waiter (reqs ! j) sw) (rev [1..<cur]) @ [Delete_waiter (reqs ! 0) sw]"
    by (simp add: rev_map)
  have "tr' = tr @ map (\<lambda>r. Delete_waiter r sw) (rev (take cur reqs))"
    unfolding eq tr' tr2 by simp
  with w' plain False show ?thesis by simp
qed

lemma wait_any_register_calls:
  "wait_any_register (traced ops) sw reqs cur (w, tr) = (res, (w', tr')) \<Longrightarrow>
   cur \<le> length reqs \<Longrightarrow>
   wait_any_register ops sw reqs cur w = (res, w') \<and>
   (case res of
      None \<Rightarrow> tr' = tr @ map (\<lambda>r. Add_waiter r sw False) (drop cur reqs)
    | Some out \<Rightarrow>
        (\<exists>i err. cur \<le> i \<and> i < length reqs \<and>
           tr' = tr @ map (\<lambda>r. Add_waiter r sw False) (take (i - cur) (drop cur reqs))
                 @ [Add_waiter (reqs ! i) sw True]
                 @ map (\<lambda>r. Delete_waiter r sw) (rev (take i reqs))
                 @ [Check_error (reqs ! i) err] \<and>
           out = (case err of None \<Rightarrow> Inr i | Some e \<Rightarrow> Inl e)))"
proof (induction "length reqs - cur" arbitrary: cur w tr)
  case 0
  then show ?case by auto
next
  case (Suc n)
  then have lt: "cur < length reqs" by simp
  obtain b w1 where a: "add_waiter ops (reqs ! cur) sw w = (b, w1)"
    by (cases "add_waiter ops (reqs ! cur) sw w")
  show ?case
  proof (cases b)
    case True
    define tr1 where "tr1 = tr @ [Add_waiter (reqs ! cur) sw True]"
    obtain w3 tr3 where undo:
      "(if cur \<noteq> 0 then
          (case wait_any_unregister (traced ops) sw reqs cur (w1, tr1) of
             (cur', w2) \<Rightarrow> delete_waiter (traced ops) (reqs ! cur') sw w2)
        else (w1, tr1)) = (w3, tr3)"
      by (metis surj_pair)
    from wait_any_undo_calls [OF _ undo] lt have
      tr3: "tr3 = tr1 @ map (\<lambda>r. Delete_waiter r sw) (rev (take cur reqs))" and
      plain: "(if cur \<noteq> 0 then
            (case wait_any_unregister ops sw reqs cur w1 of
               (cur', w2) \<Rightarrow> delete_waiter ops (reqs ! cur') sw w2)
          else w1) = w3" by simp_all
    obtain err w4 where ce: "check_error ops (reqs ! cur) w3 = (err, w4)"
      by (cases "check_error ops (reqs ! cur) w3")
    from Suc.prems(1) lt a True undo ce have
      res: "res = Some (case err of None \<Rightarrow> Inr cur | Some e \<Rightarrow> Inl e)" and
      w': "w' = w4" and tr': "tr' = tr3 @ [Check_error (reqs ! cur) err]"
      by (simp_all add: tr1_def [symmetric] Let_def)
    have "wait_any_register ops sw reqs cur w = (res, w')"
      using lt a True plain ce res w' by (simp add: Let_def)
    moreover have "\<exists>i e'. cur \<le> i \<and> i < length reqs \<and>
           tr' = tr @ map (\<lambda>r. Add_waiter r sw False) (take (i - cur) (drop cur reqs))
                 @ [Add_waiter (reqs ! i) sw True]
                 @ map (\<lambda>r. Delete_waiter r sw) (rev (take i reqs))
                 @ [Check_error (reqs ! i) e'] \<and>
           (case err of None \<Rightarrow> Inr cur | Some e \<Rightarrow> Inl e) = (case e' of None \<Rightarrow> Inr i | Some e \<Rightarrow> Inl e)"
      by (rule exI [of _ cur], rule exI [of _ err]) (use lt tr' tr3 tr1_def in simp)
    ultimately show ?thesis using res by simp
  next
    case False
    with Suc.prems(1) lt a have rec:
      "wait_any_register (traced ops) sw reqs (Suc cur)
         (w1, tr @ [Add_waiter (reqs ! cur) sw False]) = (res, (w', tr'))"
      by simp
    have n: "n = length reqs - Suc cur" using Suc.hyps(2) by simp
    from Suc.hyps(1) [OF n rec] lt have
      plain: "wait_any_register ops sw reqs (Suc cur) w1 = (res, w')" and
      ih: "(case res of
        None \<Rightarrow> tr' = (tr @ [Add_waiter (reqs ! cur) sw False])
                 @ map (\<lambda>r. Add_waiter r sw False) (drop (Suc cur) reqs)
      | Some out \<Rightarrow>
        (\<exists>i err. Suc cur \<le> i \<and> i < length reqs \<and>
           tr' = (tr @ [Add_waiter (reqs ! cur) sw False])
                 @ map (\<lambda>r. Add_waiter r sw False) (take (i - Suc cur) (drop (Suc cur) reqs))
                 @ [Add_waiter (reqs ! i) sw True]
                 @ map (\<lambda>r. Delete_waiter r sw) (rev (take i reqs))
                 @ [Check_error (reqs ! i) err] \<and>
           out = (case err of None \<Rightarrow> Inr i | Some e \<Rightarrow> Inl e)))"
      by simp_all
    have dr: "drop cur reqs = reqs ! cur # drop (Suc cur) reqs"
      using lt by (simp add: Cons_nth_drop_Suc)
    have p: "wait_any_register ops sw reqs cur w = (res, w')"
      using lt a False plain by simp
    show ?thesis
    proof (cases res)
      case None
      with ih p dr show ?thesis by simp
    next
      case (Some out)
      with ih obtain i err where i: "Suc cur \<le> i" "i < length reqs"
        "tr' = (tr @ [Add_waiter (reqs ! cur) sw False])
                 @ map (\<lambda>r. Add_waiter r sw False) (take (i - Suc cur) (drop (Suc cur) reqs))
                 @ [Add_waiter (reqs ! i) sw True]
                 @ map (\<lambda>r. Delete_waiter r sw) (rev (take i reqs))
                 @ [Check_error (reqs ! i) err]"
        "out = (case err of None \<Rightarrow> Inr i | Some e \<Rightarrow> Inl e)" by auto
      have tk: "take (i - cur) (drop cur reqs) = reqs ! cur # take (i - Suc cur) (drop (Suc cur) reqs)"
      proof -
        have "i - cur = Suc (i - Suc cur)" using i(1) by simp
        then show ?thesis by (subst dr) simp
      qed
      have "\<exists>i err. cur \<le> i \<and> i < length reqs \<and>
           tr' = tr @ map (\<lambda>r. Add_waiter r sw False) (take (i - cur) (drop cur reqs))
                 @ [Add_waiter (reqs ! i) sw True]
                 @ map (\<lambda>r. Delete_waiter r sw) (rev (take i reqs))
                 @ [Check_error (reqs ! i) err] \<and>
           out = (case err of None \<Rightarrow> Inr i | Some e \<Rightarrow> Inl e)"
        by (rule exI [of _ i], rule exI [of _ err]) (use i tk in simp)
      with p Some show ?thesis by simp
    qed
  qed
qed

lemma wait_any_collect_found_calls:
  "wait_any_collect (traced ops) sw reqs cur result (w, tr) = (res, (w', tr')) \<Longrightarrow>
   result \<noteq> length reqs \<Longrightarrow>
   res = result \<and> tr' = tr @ map (\<lambda>r. Delete_waiter r sw) (drop cur reqs) \<and>
   wait_any_collect ops sw reqs cur result w = (result, w')"
proof (induction "length reqs - cur" arbitrary: cur w tr)
  case 0
  then show ?case by simp
next
  case (Suc n)
  then have lt: "cur < length reqs" by simp
  from Suc.prems lt have rec:
    "wait_any_collect (traced ops) sw reqs (Suc cur) result
       (delete_waiter ops (reqs ! cur) sw w, tr @ [Delete_waiter (reqs ! cur) sw]) = (res, (w', tr'))"
    by simp
  have n: "n = length reqs - Suc cur" using Suc.hyps(2) by simp
  from Suc.hyps(1) [OF n rec Suc.prems(2)] lt Suc.prems(2) show ?case
    by (simp add: Cons_nth_drop_Suc [symmetric])
qed

lemma wait_any_collect_calls:
  "wait_any_collect (traced ops) sw reqs cur (length reqs) (w, tr) = (res, (w', tr')) \<Longrightarrow>
   cur \<le> length reqs \<Longrightarrow>
   wait_any_collect ops sw reqs cur (length reqs) w = (res, w') \<and>
   cur \<le> res \<and> res \<le> length reqs \<and>
   tr' = tr @ concat (map (\<lambda>r. [Delete_waiter r sw, Poll r False]) (take (res - cur) (drop cur reqs)))
         @ (if res < length reqs
            then [Delete_waiter (reqs ! res) sw, Poll (reqs ! res) True]
                 @ map (\<lambda>r. Delete_waiter r sw) (drop (Suc res) reqs)
            else [])"
proof (induction "length reqs - cur" arbitrary: cur w tr)
  case 0
  then show ?case by simp
next
  case (Suc n)
  then have lt: "cur < length reqs" by simp
  define w1 where "w1 = delete_waiter ops (reqs ! cur) sw w"
  obtain b w2 where p: "poll ops (reqs ! cur) w1 = (b, w2)"
    by (cases "poll ops (reqs ! cur) w1")
  define tr2 where "tr2 = tr @ [Delete_waiter (reqs ! cur) sw, Poll (reqs ! cur) b]"
  from Suc.prems(1) lt p have rec:
    "wait_any_collect (traced ops) sw reqs (Suc cur) (if b then cur else length reqs) (w2, tr2)
       = (res, (w', tr'))"
    by (simp add: w1_def tr2_def)
  have plain_step: "wait_any_collect ops sw reqs cur (length reqs) w
      = wait_any_collect ops sw reqs (Suc cur) (if b then cur else length reqs) w2"
    using lt p by (simp add: w1_def)
  show ?case
  proof (cases b)
    case True
    with rec have "wait_any_collect (traced ops) sw reqs (Suc cur) cur (w2, tr2) = (res, (w', tr'))"
      by simp
    from wait_any_collect_found_calls [OF this] lt have
      "res = cur" "tr' = tr2 @ map (\<lambda>r. Delete_waiter r sw) (drop (Suc cur) reqs)"
      "wait_any_collect ops sw reqs (Suc cur) cur w2 = (cur, w')" by simp_all
    with plain_step True lt show ?thesis by (simp add: tr2_def)
  next
    case False
    with rec have r: "wait_any_collect (traced ops) sw reqs (Suc cur) (length reqs) (w2, tr2)
        = (res, (w', tr'))" by simp
    have n: "n = length reqs - Suc cur" using Suc.hyps(2) by simp
    from Suc.hyps(1) [OF n r] lt have ih:
      "wait_any_collect ops sw reqs (Suc cur) (length reqs) w2 = (res, w')"
      "Suc cur \<le> res" "res \<le> length reqs"
      "tr' = tr2 @ concat (map (\<lambda>r. [Delete_waiter r sw, Poll r False])
                     (take (res - Suc cur) (drop (Suc cur) reqs)))
         @ (if res < length reqs
            then [Delete_waiter (reqs ! res) sw, Poll (reqs ! res) True]
                 @ map (\<lambda>r. Delete_waiter r sw) (drop (Suc res) reqs)
            else [])" by simp_all
    have tk: "take (res - cur) (drop cur reqs)
        = reqs ! cur # take (res - Suc cur) (drop (Suc cur) reqs)"
    proof -
      have "res - cur = Suc (res - Suc cur)" using ih(2) by simp
      moreover have "drop cur reqs = reqs ! cur # drop (Suc cur) reqs"
        using lt by (simp add: Cons_nth_drop_Suc)
      ultimately show ?thesis by simp
    qed
    from ih plain_step False show ?thesis
      unfolding tk by (simp add: tr2_def)
  qed
qed

lemma wait_any_calls:
  assumes "wait_any (traced ops) reqs (w, []) = Some (out, (w', tr))"
  shows "wait_any ops reqs w = Some (out, w') \<and>
    (\<exists>sw. sw = fst (new_switch ops w) \<and>
      ((\<exists>i err. i < length reqs \<and>
          tr = New_switch sw # map (\<lambda>r. Add_waiter r sw False) (take i reqs)
               @ [Add_waiter (reqs ! i) sw True]
               @ map (\<lambda>r. Delete_waiter r sw) (rev (take i reqs))
               @ [Check_error (reqs ! i) err] \<and>
          out = (case err of None \<Rightarrow> Inr i | Some e \<Rightarrow> Inl e))
       \<or> (\<exists>k. k \<le> length reqs \<and> out = Inr k \<and>
          tr = New_switch sw # map (\<lambda>r. Add_waiter r sw False) reqs
               @ [Wait_for_on sw]
               @ concat (map (\<lambda>r. [Delete_waiter r sw, Poll r False]) (take k reqs))
               @ (if k < length reqs
                  then [Delete_waiter (reqs ! k) sw, Poll (reqs ! k) True]
                       @ map (\<lambda>r. Delete_waiter r sw) (drop (Suc k) reqs)
                  else []))))"
proof -
  obtain sw w0 where ns: "new_switch ops w = (sw, w0)" by (cases "new_switch ops w")
  obtain res w1 tr1 where reg:
    "wait_any_register (traced ops) sw reqs 0 (w0, [New_switch sw]) = (res, (w1, tr1))"
    by (metis surj_pair)
  from wait_any_register_calls [OF reg] have
    reg_plain: "wait_any_register ops sw reqs 0 w0 = (res, w1)" and
    reg_tr: "(case res of
      None \<Rightarrow> tr1 = [New_switch sw] @ map (\<lambda>r. Add_waiter r sw False) (drop 0 reqs)
    | Some out \<Rightarrow>
        (\<exists>i err. 0 \<le> i \<and> i < length reqs \<and>
           tr1 = [New_switch sw] @ map (\<lambda>r. Add_waiter r sw False) (take (i - 0) (drop 0 reqs))
                 @ [Add_waiter (reqs ! i) sw True]
                 @ map (\<lambda>r. Delete_waiter r sw) (rev (take i reqs))
                 @ [Check_error (reqs ! i) err] \<and>
           out = (case err of None \<Rightarrow> Inr i | Some e \<Rightarrow> Inl e)))"
    by simp_all
  show ?thesis
  proof (cases res)
    case (Some o1)
    with assms ns reg have "out = o1" "w' = w1" "tr = tr1"
      by (simp_all add: wait_any_def)
    with Some reg_tr reg_plain ns show ?thesis
      by (auto simp add: wait_any_def)
  next
    case None
    with reg_tr have tr1: "tr1 = New_switch sw # map (\<lambda>r. Add_waiter r sw False) reqs" by simp
    from assms ns reg None obtain w2 where
      wf: "wait_for_on ops sw w1 = Some w2" and
      rest: "(case wait_any_collect (traced ops) sw reqs 0 (length reqs) (w2, tr1 @ [Wait_for_on sw]) of
               (result, w3) \<Rightarrow> Some (Inr result, w3)) = Some (out, (w', tr))"
      by (auto simp add: wait_any_def split: option.splits)
    then obtain k where
      col: "wait_any_collect (traced ops) sw reqs 0 (length reqs) (w2, tr1 @ [Wait_for_on sw])
              = (k, (w', tr))" and out: "out = Inr k"
      by (auto split: prod.splits)
    from wait_any_collect_calls [OF col] have
      col_plain: "wait_any_collect ops sw reqs 0 (length reqs) w2 = (k, w')" and
      k: "k \<le> length reqs" and
      tr: "tr = (tr1 @ [Wait_for_on sw])
         @ concat (map (\<lambda>r. [Delete_waiter r sw, Poll r False]) (take k reqs))
         @ (if k < length reqs
            then [Delete_waiter (reqs ! k) sw, Poll (reqs ! k) True]
                 @ map (\<lambda>r. Delete_waiter r sw) (drop (Suc k) reqs)
            else [])" by simp_all
    have "wait_any ops reqs w = Some (out, w')"
      using ns reg_plain None wf col_plain out by (simp add: wait_any_def)
    moreover have "\<exists>k. k \<le> length reqs \<and> out = Inr k \<and>
          tr = New_switch sw # map (\<lambda>r. Add_waiter r sw False) reqs
               @ [Wait_for_on sw]
               @ concat (map (\<lambda>r. [Delete_waiter r sw, Poll r False]) (take k reqs))
               @ (if k < length reqs
                  then [Delete_waiter (reqs ! k) sw, Poll (reqs ! k) True]
                       @ map (\<lambda>r. Delete_waiter r sw) (drop (Suc k) reqs)
                  else [])"
      by (rule exI [of _ k]) (use k out tr tr1 in simp)
    ultimately show ?thesis using ns by simp
  qed
qed

text \<open>
  All loops of \<open>wait_any\<close> end. The call fails to return in one case only: every
  \<open>add_waiter\<close> of the registration scan answered false and \<open>wait_for_on\<close> never returns.
\<close>

lemma wait_any_suspends_only_in_wait_for_on:
  "(wait_any ops reqs w = None) =
     (case new_switch ops w of
        (sw, w0) \<Rightarrow>
          (case wait_any_register ops sw reqs 0 w0 of
             (res, w1) \<Rightarrow> res = None \<and> wait_for_on ops sw w1 = None))"
  by (simp add: wait_any_def split: prod.splits option.splits)

subsection \<open>Evaluating the request model\<close>

lemmas io_eval = wait_any_def wait_all_def poll_any_def cancel_all_def
  request_wait_def request_poll_def request_cancel_def request_add_waiter_def
  request_delete_waiter_def request_check_error_def switch_new_def switch_wait_for_on_def
  tick_def leave_pending_def terminal_def Let_def idle_world_def fresh_request_def

subsection \<open>wait_any: a request found terminal during registration\<close>




subsection \<open>wait_any: the scan after the wakeup\<close>



subsection \<open>Which paths call check_error\<close>

lemma check_error_calls_append [simp]:
  "check_error_calls (xs @ ys) = check_error_calls xs @ check_error_calls ys"
  by (induction xs rule: check_error_calls.induct) simp_all

lemma check_error_calls_map [simp]:
  "check_error_calls (map Wait rs) = []"
  "check_error_calls (map (\<lambda>r. Poll r b) rs) = []"
  "check_error_calls (map (\<lambda>(r, b). Cancel r b) ps) = []"
  "check_error_calls (map (\<lambda>r. Add_waiter r sw b) rs) = []"
  "check_error_calls (map (\<lambda>r. Delete_waiter r sw) rs) = []"
  "check_error_calls (concat (map (\<lambda>r. [Delete_waiter r sw, Poll r b]) rs)) = []"
  by (induction rs, simp_all, induction ps, auto)

text \<open>
  C4. \<open>poll_any\<close>, \<open>cancel_all\<close> and \<open>wait_all\<close> never call \<open>check_error\<close>. A \<open>wait_any\<close>
  that returns after its \<open>wait_for_on\<close> has returned never calls \<open>check_error\<close> either and
  ends by returning a position, never by throwing, whatever the state of the request
  at that position. A \<open>wait_any\<close> that ends without calling \<open>wait_for_on\<close> calls
  \<open>check_error\<close> exactly once, on the request at the position it found, and throws what
  \<open>check_error\<close> throws.
\<close>

theorem check_error_only_after_registration_scan:
  "(poll_any (traced ops) reqs (w, []) = (pos, (w1, tr1)) \<longrightarrow> check_error_calls tr1 = []) \<and>
   (cancel_all (traced ops) reqs (w, []) = (n, (w2, tr2)) \<longrightarrow> check_error_calls tr2 = []) \<and>
   (wait_all (traced ops) reqs (w, []) = Some (w3, tr3) \<longrightarrow> check_error_calls tr3 = []) \<and>
   (wait_any (traced ops) reqs (w, []) = Some (out, (w4, tr4)) \<longrightarrow>
      (if \<exists>sw. Wait_for_on sw \<in> set tr4
       then check_error_calls tr4 = [] \<and> (\<exists>k. out = Inr k)
       else \<exists>i err. i < length reqs \<and> check_error_calls tr4 = [(reqs ! i, err)] \<and>
                    out = (case err of None \<Rightarrow> Inr i | Some e \<Rightarrow> Inl e)))"
proof (intro conjI impI)
  assume "poll_any (traced ops) reqs (w, []) = (pos, (w1, tr1))"
  then have "poll_any_from (traced ops) reqs 0 (w, []) = (pos, (w1, tr1))"
    by (simp add: poll_any_def)
  from poll_any_from_calls [OF this] show "check_error_calls tr1 = []" by simp
next
  assume "cancel_all (traced ops) reqs (w, []) = (n, (w2, tr2))"
  then have "cancel_all_from (traced ops) reqs 0 0 (w, []) = (n, (w2, tr2))"
    by (simp add: cancel_all_def)
  from cancel_all_from_calls [OF this] show "check_error_calls tr2 = []" by auto
next
  assume "wait_all (traced ops) reqs (w, []) = Some (w3, tr3)"
  then have "wait_all_from (traced ops) reqs 0 (w, []) = Some (w3, tr3)"
    by (simp add: wait_all_def)
  from wait_all_from_calls [OF this] show "check_error_calls tr3 = []" by simp
next
  assume "wait_any (traced ops) reqs (w, []) = Some (out, (w4, tr4))"
  from wait_any_calls [OF this] obtain s where
    paths: "(\<exists>i err. i < length reqs \<and>
          tr4 = New_switch s # map (\<lambda>r. Add_waiter r s False) (take i reqs)
               @ [Add_waiter (reqs ! i) s True]
               @ map (\<lambda>r. Delete_waiter r s) (rev (take i reqs))
               @ [Check_error (reqs ! i) err] \<and>
          out = (case err of None \<Rightarrow> Inr i | Some e \<Rightarrow> Inl e))
       \<or> (\<exists>k. k \<le> length reqs \<and> out = Inr k \<and>
          tr4 = New_switch s # map (\<lambda>r. Add_waiter r s False) reqs
               @ [Wait_for_on s]
               @ concat (map (\<lambda>r. [Delete_waiter r s, Poll r False]) (take k reqs))
               @ (if k < length reqs
                  then [Delete_waiter (reqs ! k) s, Poll (reqs ! k) True]
                       @ map (\<lambda>r. Delete_waiter r s) (drop (Suc k) reqs)
                  else []))"
    by blast
  from paths show "if \<exists>sw. Wait_for_on sw \<in> set tr4
       then check_error_calls tr4 = [] \<and> (\<exists>k. out = Inr k)
       else \<exists>i err. i < length reqs \<and> check_error_calls tr4 = [(reqs ! i, err)] \<and>
                    out = (case err of None \<Rightarrow> Inr i | Some e \<Rightarrow> Inl e)"
  proof (elim disjE exE conjE)
    fix i err
    assume i: "i < length reqs"
      and tr: "tr4 = New_switch s # map (\<lambda>r. Add_waiter r s False) (take i reqs)
               @ [Add_waiter (reqs ! i) s True]
               @ map (\<lambda>r. Delete_waiter r s) (rev (take i reqs))
               @ [Check_error (reqs ! i) err]"
      and out: "out = (case err of None \<Rightarrow> Inr i | Some e \<Rightarrow> Inl e)"
    from tr have no: "\<not> (\<exists>sw. Wait_for_on sw \<in> set tr4)" by auto
    from tr have "check_error_calls tr4 = [(reqs ! i, err)]" by simp
    with no i out show ?thesis by auto
  next
    fix k
    assume out: "out = Inr k"
      and tr: "tr4 = New_switch s # map (\<lambda>r. Add_waiter r s False) reqs
               @ [Wait_for_on s]
               @ concat (map (\<lambda>r. [Delete_waiter r s, Poll r False]) (take k reqs))
               @ (if k < length reqs
                  then [Delete_waiter (reqs ! k) s, Poll (reqs ! k) True]
                       @ map (\<lambda>r. Delete_waiter r s) (drop (Suc k) reqs)
                  else [])"
    from tr have yes: "\<exists>sw. Wait_for_on sw \<in> set tr4" by auto
    from tr have "check_error_calls tr4 = []" by simp
    with yes out show ?thesis by auto
  qed
qed

theorem check_error_only_after_registration_scan_witness:
  "poll_any (traced io_requests) [1] (error_example, [])
     = (1, (idle_world\<lparr>schedule := [[Fail 1 ''io'']]\<rparr>, [Poll 1 False]))
   \<and> cancel_all (traced io_requests) [1] (error_example, [])
     = (1, (idle_world\<lparr>requests := (\<lambda>r. fresh_request)(1 := fresh_request\<lparr>state := Canceled\<rparr>),
                       schedule := [[Fail 1 ''io'']]\<rparr>, [Cancel 1 True]))
   \<and> wait_all (traced io_requests) [1] (error_example, [])
     = Some (idle_world\<lparr>requests := (\<lambda>r. fresh_request)(1 := fresh_request\<lparr>state := Failed ''io''\<rparr>)\<rparr>,
             [Wait 1])
   \<and> wait_any (traced io_requests) [1] (error_example, [])
     = Some (Inr 0,
             (idle_world\<lparr>requests := (\<lambda>r. fresh_request)(1 := fresh_request\<lparr>state := Failed ''io''\<rparr>),
                         switched_on := {0}, next_switch := 1\<rparr>,
              [New_switch 0, Add_waiter 1 0 False, Wait_for_on 0, Delete_waiter 1 0, Poll 1 True]))
   \<and> check_error_calls [New_switch 0, Add_waiter 1 0 False, Wait_for_on 0, Delete_waiter 1 0,
                         Poll 1 True :: (nat, nat, string) call] = []"
proof -
  have polled: "poll_any (traced io_requests) [1] (error_example, [])
     = (1, (idle_world\<lparr>schedule := [[Fail 1 ''io'']]\<rparr>, [Poll 1 False]))"
    by (simp add: io_eval error_example_def)
  have canceled: "cancel_all (traced io_requests) [1] (error_example, [])
     = (1, (idle_world\<lparr>requests := (\<lambda>r. fresh_request)(1 := fresh_request\<lparr>state := Canceled\<rparr>),
                       schedule := [[Fail 1 ''io'']]\<rparr>, [Cancel 1 True]))"
    by (simp add: io_eval error_example_def)
  have waited: "wait_all (traced io_requests) [1] (error_example, [])
     = Some (idle_world\<lparr>requests := (\<lambda>r. fresh_request)(1 := fresh_request\<lparr>state := Failed ''io''\<rparr>)\<rparr>,
             [Wait 1])"
    by (simp add: io_eval error_example_def)
  have woken: "wait_any (traced io_requests) [1] (error_example, [])
     = Some (Inr 0,
             (idle_world\<lparr>requests := (\<lambda>r. fresh_request)(1 := fresh_request\<lparr>state := Failed ''io''\<rparr>),
                         switched_on := {0}, next_switch := 1\<rparr>,
              [New_switch 0, Add_waiter 1 0 False, Wait_for_on 0, Delete_waiter 1 0, Poll 1 True]))"
    by (simp add: io_eval error_example_def fun_eq_iff)
  from check_error_only_after_registration_scan
    [where ops = io_requests and reqs = "[1]" and w = error_example and
      pos = 1 and ?w1.0 = "idle_world\<lparr>schedule := [[Fail 1 ''io'']]\<rparr>" and ?tr1.0 = "[Poll 1 False]" and
      n = 1 and ?w2.0 = "idle_world\<lparr>requests := (\<lambda>r. fresh_request)(1 := fresh_request\<lparr>state := Canceled\<rparr>),
                       schedule := [[Fail 1 ''io'']]\<rparr>" and ?tr2.0 = "[Cancel 1 True]" and
      ?w3.0 = "idle_world\<lparr>requests := (\<lambda>r. fresh_request)(1 := fresh_request\<lparr>state := Failed ''io''\<rparr>)\<rparr>" and
      ?tr3.0 = "[Wait 1]" and out = "Inr 0" and
      ?w4.0 = "idle_world\<lparr>requests := (\<lambda>r. fresh_request)(1 := fresh_request\<lparr>state := Failed ''io''\<rparr>),
                         switched_on := {0}, next_switch := 1\<rparr>" and
      ?tr4.0 = "[New_switch 0, Add_waiter 1 0 False, Wait_for_on 0, Delete_waiter 1 0, Poll 1 True]"]
    polled canceled waited woken
  show ?thesis by simp
qed

subsection \<open>wait_any: registrations are undone\<close>

lemma tracks_waitersD:
  assumes "tracks_waiters ops sw reg"
  shows "add_waiter ops r sw w = (True, w') \<Longrightarrow> reg w' \<subseteq> reg w"
    and "add_waiter ops r sw w = (False, w') \<Longrightarrow> reg w' \<subseteq> insert r (reg w)"
    and "reg (delete_waiter ops r sw w) \<subseteq> reg w - {r}"
    and "poll ops r w = (b, w') \<Longrightarrow> reg w' \<subseteq> reg w"
    and "check_error ops r w = (e, w') \<Longrightarrow> reg w' \<subseteq> reg w"
    and "wait_for_on ops sw w = Some w' \<Longrightarrow> reg w' \<subseteq> reg w"
proof -
  from assms have
    a: "\<forall>r w b w'. add_waiter ops r sw w = (b, w') \<longrightarrow>
          reg w' \<subseteq> (if b then reg w else insert r (reg w))" and
    d: "\<forall>r w. reg (delete_waiter ops r sw w) \<subseteq> reg w - {r}" and
    p: "\<forall>r w b w'. poll ops r w = (b, w') \<longrightarrow> reg w' \<subseteq> reg w" and
    c: "\<forall>r w e w'. check_error ops r w = (e, w') \<longrightarrow> reg w' \<subseteq> reg w" and
    f: "\<forall>w w'. wait_for_on ops sw w = Some w' \<longrightarrow> reg w' \<subseteq> reg w"
    by (simp_all add: tracks_waiters_def)
  from a [rule_format, of r w True w'] show "add_waiter ops r sw w = (True, w') \<Longrightarrow> reg w' \<subseteq> reg w" by simp
  from a [rule_format, of r w False w'] show "add_waiter ops r sw w = (False, w') \<Longrightarrow> reg w' \<subseteq> insert r (reg w)" by simp
  from d show "reg (delete_waiter ops r sw w) \<subseteq> reg w - {r}" by blast
  from p show "poll ops r w = (b, w') \<Longrightarrow> reg w' \<subseteq> reg w" by blast
  from c show "check_error ops r w = (e, w') \<Longrightarrow> reg w' \<subseteq> reg w" by blast
  from f show "wait_for_on ops sw w = Some w' \<Longrightarrow> reg w' \<subseteq> reg w" by blast
qed

lemma wait_any_unregister_reg:
  assumes t: "tracks_waiters ops sw reg"
  shows "wait_any_unregister ops sw reqs cur w = (c, w') \<Longrightarrow>
         c = 0 \<and> reg w' \<subseteq> reg w - (!) reqs ` {1..<cur}"
proof (induction cur arbitrary: w)
  case 0
  then show ?case by simp
next
  case (Suc n)
  show ?case
  proof (cases n)
    case 0
    with Suc.prems show ?thesis by simp
  next
    case (Suc m)
    with Suc.prems have
      "wait_any_unregister ops sw reqs n (delete_waiter ops (reqs ! n) sw w) = (c, w')" by simp
    from Suc.IH [OF this] have c: "c = 0"
      and sub: "reg w' \<subseteq> reg (delete_waiter ops (reqs ! n) sw w) - (!) reqs ` {1..<n}" by simp_all
    have "{1..<Suc n} = insert n {1..<n}" using Suc by auto
    with sub tracks_waitersD(3) [OF t, of "reqs ! n" w] c show ?thesis by auto
  qed
qed

lemma wait_any_undo_reg:
  assumes t: "tracks_waiters ops sw reg" and le: "cur \<le> length reqs"
  shows "reg (if cur \<noteq> 0 then
            (case wait_any_unregister ops sw reqs cur w of
               (cur', w2) \<Rightarrow> delete_waiter ops (reqs ! cur') sw w2)
          else w) \<subseteq> reg w - set (take cur reqs)"
proof (cases "cur = 0")
  case True
  then show ?thesis by simp
next
  case False
  obtain c w2 where u: "wait_any_unregister ops sw reqs cur w = (c, w2)"
    by (cases "wait_any_unregister ops sw reqs cur w")
  from wait_any_unregister_reg [OF t u] have c: "c = 0"
    and sub: "reg w2 \<subseteq> reg w - (!) reqs ` {1..<cur}" by simp_all
  have "{0..<cur} = insert 0 {1..<cur}" using False by auto
  then have "set (take cur reqs) = insert (reqs ! 0) ((!) reqs ` {1..<cur})"
    using nth_image [OF le] by simp
  with sub tracks_waitersD(3) [OF t, of "reqs ! 0" w2] False u c show ?thesis by auto
qed

lemma wait_any_register_reg:
  assumes t: "tracks_waiters ops sw reg"
  shows "wait_any_register ops sw reqs cur w = (res, w') \<Longrightarrow> cur \<le> length reqs \<Longrightarrow>
         (case res of None \<Rightarrow> reg w' \<subseteq> reg w \<union> set (drop cur reqs)
          | Some out \<Rightarrow> reg w' \<subseteq> reg w - set (take cur reqs))"
proof (induction "length reqs - cur" arbitrary: cur w)
  case 0
  then show ?case by simp
next
  case (Suc n)
  then have lt: "cur < length reqs" by simp
  obtain b w1 where a: "add_waiter ops (reqs ! cur) sw w = (b, w1)"
    by (cases "add_waiter ops (reqs ! cur) sw w")
  show ?case
  proof (cases b)
    case True
    define w3 where "w3 = (if cur \<noteq> 0 then
            (case wait_any_unregister ops sw reqs cur w1 of
               (cur', w2) \<Rightarrow> delete_waiter ops (reqs ! cur') sw w2)
          else w1)"
    obtain err w4 where ce: "check_error ops (reqs ! cur) w3 = (err, w4)"
      by (cases "check_error ops (reqs ! cur) w3")
    from Suc.prems(1) lt a True have
      "(case check_error ops (reqs ! cur) w3 of
          (err, w4) \<Rightarrow> (Some (case err of None \<Rightarrow> Inr cur | Some e \<Rightarrow> Inl e), w4)) = (res, w')"
      by (simp add: w3_def Let_def)
    with ce have res: "res = Some (case err of None \<Rightarrow> Inr cur | Some e \<Rightarrow> Inl e)"
      and w': "w' = w4" by simp_all
    have "reg w3 \<subseteq> reg w1 - set (take cur reqs)"
      unfolding w3_def using lt by (intro wait_any_undo_reg [OF t]) simp
    moreover have "reg w1 \<subseteq> reg w" using a True tracks_waitersD(1) [OF t] by simp
    moreover have "reg w4 \<subseteq> reg w3" using ce tracks_waitersD(5) [OF t] by blast
    ultimately show ?thesis using res w' by auto
  next
    case False
    with Suc.prems(1) lt a have rec: "wait_any_register ops sw reqs (Suc cur) w1 = (res, w')"
      by simp
    have n: "n = length reqs - Suc cur" using Suc.hyps(2) by simp
    from Suc.hyps(1) [OF n rec] lt have ih:
      "(case res of None \<Rightarrow> reg w' \<subseteq> reg w1 \<union> set (drop (Suc cur) reqs)
          | Some out \<Rightarrow> reg w' \<subseteq> reg w1 - set (take (Suc cur) reqs))" by simp
    have w1: "reg w1 \<subseteq> insert (reqs ! cur) (reg w)"
      using a False tracks_waitersD(2) [OF t] by simp
    have dr: "set (drop cur reqs) = insert (reqs ! cur) (set (drop (Suc cur) reqs))"
      using lt by (simp add: Cons_nth_drop_Suc [symmetric])
    have tk: "set (take (Suc cur) reqs) = insert (reqs ! cur) (set (take cur reqs))"
      using lt by (simp add: take_Suc_conv_app_nth)
    show ?thesis
    proof (cases res)
      case None
      with ih w1 dr show ?thesis by auto
    next
      case (Some out)
      with ih w1 tk show ?thesis by auto
    qed
  qed
qed

lemma wait_any_collect_reg:
  assumes t: "tracks_waiters ops sw reg"
  shows "wait_any_collect ops sw reqs cur result w = (res, w') \<Longrightarrow>
         reg w' \<subseteq> reg w - set (drop cur reqs)"
proof (induction "length reqs - cur" arbitrary: cur result w)
  case 0
  then show ?case by simp
next
  case (Suc n)
  then have lt: "cur < length reqs" by simp
  define w1 where "w1 = delete_waiter ops (reqs ! cur) sw w"
  have w1: "reg w1 \<subseteq> reg w - {reqs ! cur}"
    unfolding w1_def by (rule tracks_waitersD(3) [OF t])
  have n: "n = length reqs - Suc cur" using Suc.hyps(2) by simp
  have dr: "set (drop cur reqs) = insert (reqs ! cur) (set (drop (Suc cur) reqs))"
    using lt by (simp add: Cons_nth_drop_Suc [symmetric])
  show ?case
  proof (cases "result = length reqs")
    case True
    obtain b w2 where p: "poll ops (reqs ! cur) w1 = (b, w2)"
      by (cases "poll ops (reqs ! cur) w1")
    from Suc.prems lt True p have rec:
      "wait_any_collect ops sw reqs (Suc cur) (if b then cur else result) w2 = (res, w')"
      by (cases b) (simp_all add: w1_def)
    from Suc.hyps(1) [OF n rec] have "reg w' \<subseteq> reg w2 - set (drop (Suc cur) reqs)" .
    moreover have "reg w2 \<subseteq> reg w1" using p tracks_waitersD(4) [OF t] by blast
    ultimately show ?thesis using w1 dr by auto
  next
    case False
    with Suc.prems lt have rec: "wait_any_collect ops sw reqs (Suc cur) result w1 = (res, w')"
      by (simp add: w1_def)
    from Suc.hyps(1) [OF n rec] have "reg w' \<subseteq> reg w1 - set (drop (Suc cur) reqs)" .
    with w1 dr show ?thesis by auto
  qed
qed

lemma wait_any_reg:
  assumes t: "tracks_waiters ops (fst (new_switch ops w)) reg"
    and fresh: "reg (snd (new_switch ops w)) = {}"
    and run: "wait_any ops reqs w = Some (out, w')"
  shows "reg w' = {}"
proof -
  obtain sw w0 where ns: "new_switch ops w = (sw, w0)" by (cases "new_switch ops w")
  with t fresh have t': "tracks_waiters ops sw reg" and w0: "reg w0 = {}" by simp_all
  obtain res w1 where rg: "wait_any_register ops sw reqs 0 w0 = (res, w1)"
    by (cases "wait_any_register ops sw reqs 0 w0")
  from wait_any_register_reg [OF t' rg] w0 have
    w1: "(case res of None \<Rightarrow> reg w1 \<subseteq> set reqs | Some out \<Rightarrow> reg w1 = {})" 
    by (auto split: option.splits)
  show ?thesis
  proof (cases res)
    case (Some o1)
    with run ns rg w1 show ?thesis by (simp add: wait_any_def)
  next
    case None
    with run ns rg obtain w2 k where wf: "wait_for_on ops sw w1 = Some w2"
      and col: "wait_any_collect ops sw reqs 0 (length reqs) w2 = (k, w')"
      by (auto simp add: wait_any_def split: option.splits prod.splits)
    from wait_any_collect_reg [OF t' col] have "reg w' \<subseteq> reg w2 - set reqs" by simp
    moreover have "reg w2 \<subseteq> reg w1" using wf tracks_waitersD(6) [OF t'] by blast
    ultimately show ?thesis using w1 None by auto
  qed
qed

lemma wakeup_deletes:
  assumes "r \<in> set reqs"
  shows "Delete_waiter r s \<in> set (concat (map (\<lambda>r. [Delete_waiter r s, Poll r False]) (take k reqs))
               @ (if k < length reqs
                  then [Delete_waiter (reqs ! k) s, Poll (reqs ! k) True]
                       @ map (\<lambda>r. Delete_waiter r s) (drop (Suc k) reqs)
                  else []))"
proof -
  from assms have "r \<in> set (take k reqs) \<or> r \<in> set (drop k reqs)"
    by (metis Un_iff append_take_drop_id set_append)
  then show ?thesis
  proof
    assume "r \<in> set (take k reqs)"
    then show ?thesis by auto
  next
    assume r: "r \<in> set (drop k reqs)"
    then have lt: "k < length reqs" by (cases "k < length reqs") auto
    with r have "r = reqs ! k \<or> r \<in> set (drop (Suc k) reqs)"
      by (simp add: Cons_nth_drop_Suc [symmetric])
    with lt show ?thesis by auto
  qed
qed

lemma wait_any_registrations_undone:
  fixes ops :: "('r, 's, 'w, 'e) request_ops"
  assumes "wait_any (traced ops) reqs (w, []) = Some (out, (w', tr))"
  shows "\<exists>pre post. tr = New_switch (fst (new_switch ops w)) # pre @ post \<and>
           (\<forall>r s b. Add_waiter r s b \<notin> set post) \<and>
           (\<forall>r s. Add_waiter r s False \<in> set pre \<longrightarrow> Delete_waiter r s \<in> set post)"
proof -
  from wait_any_calls [OF assms] obtain s where s: "s = fst (new_switch ops w)" and
    paths: "(\<exists>i err. i < length reqs \<and>
          tr = New_switch s # map (\<lambda>r. Add_waiter r s False) (take i reqs)
               @ [Add_waiter (reqs ! i) s True]
               @ map (\<lambda>r. Delete_waiter r s) (rev (take i reqs))
               @ [Check_error (reqs ! i) err] \<and>
          out = (case err of None \<Rightarrow> Inr i | Some e \<Rightarrow> Inl e))
       \<or> (\<exists>k. k \<le> length reqs \<and> out = Inr k \<and>
          tr = New_switch s # map (\<lambda>r. Add_waiter r s False) reqs
               @ [Wait_for_on s]
               @ concat (map (\<lambda>r. [Delete_waiter r s, Poll r False]) (take k reqs))
               @ (if k < length reqs
                  then [Delete_waiter (reqs ! k) s, Poll (reqs ! k) True]
                       @ map (\<lambda>r. Delete_waiter r s) (drop (Suc k) reqs)
                  else []))"
    by blast
  from paths show ?thesis
  proof (elim disjE exE conjE)
    fix i err
    assume tr: "tr = New_switch s # map (\<lambda>r. Add_waiter r s False) (take i reqs)
               @ [Add_waiter (reqs ! i) s True]
               @ map (\<lambda>r. Delete_waiter r s) (rev (take i reqs))
               @ [Check_error (reqs ! i) err]"
    show ?thesis
      by (rule exI [of _ "map (\<lambda>r. Add_waiter r s False) (take i reqs) @ [Add_waiter (reqs ! i) s True]
              :: ('r, 's, 'e) call list"],
          rule exI [of _ "map (\<lambda>r. Delete_waiter r s) (rev (take i reqs)) @ [Check_error (reqs ! i) err]"])
        (use tr s in auto)
  next
    fix k
    assume tr: "tr = New_switch s # map (\<lambda>r. Add_waiter r s False) reqs
               @ [Wait_for_on s]
               @ concat (map (\<lambda>r. [Delete_waiter r s, Poll r False]) (take k reqs))
               @ (if k < length reqs
                  then [Delete_waiter (reqs ! k) s, Poll (reqs ! k) True]
                       @ map (\<lambda>r. Delete_waiter r s) (drop (Suc k) reqs)
                  else [])"
    define post :: "('r, 's, 'e) call list"
      where "post = concat (map (\<lambda>r. [Delete_waiter r s, Poll r False]) (take k reqs))
               @ (if k < length reqs
                  then [Delete_waiter (reqs ! k) s, Poll (reqs ! k) True]
                       @ map (\<lambda>r. Delete_waiter r s) (drop (Suc k) reqs)
                  else [])"
    have del: "\<And>r. r \<in> set reqs \<Longrightarrow> Delete_waiter r s \<in> set post"
      unfolding post_def by (rule wakeup_deletes)
    have noadd: "\<And>r s' b. Add_waiter r s' b \<notin> set post"
      unfolding post_def by auto
    have tr2: "tr = New_switch s # (map (\<lambda>r. Add_waiter r s False) reqs @ [Wait_for_on s]) @ post"
      unfolding post_def using tr by simp
    show ?thesis
      by (rule exI [of _ "map (\<lambda>r. Add_waiter r s False) reqs @ [Wait_for_on s]
              :: ('r, 's, 'e) call list"],
          rule exI [of _ post])
        (use tr2 s del noadd in auto)
  qed
qed

lemma io_tracks_waiters:
  "tracks_waiters io_requests sw (\<lambda>w. {r. sw \<in> waiters (requests w r)})"
  unfolding tracks_waiters_def
proof (intro conjI allI impI)
  fix r w b w'
  assume "add_waiter io_requests r sw w = (b, (w' :: 'a world))"
  then show "{r. sw \<in> waiters (requests w' r)}
      \<subseteq> (if b then {r. sw \<in> waiters (requests w r)} else insert r {r. sw \<in> waiters (requests w r)})"
    by (auto simp add: request_add_waiter_def Let_def split: if_splits)
next
  fix r and w :: "'a world"
  show "{r'. sw \<in> waiters (requests (delete_waiter io_requests r sw w) r')}
      \<subseteq> {r'. sw \<in> waiters (requests w r')} - {r}"
    by (auto simp add: request_delete_waiter_def Let_def split: if_splits)
next
  fix r w b w'
  assume "poll io_requests r w = (b, (w' :: 'a world))"
  then show "{r. sw \<in> waiters (requests w' r)} \<subseteq> {r. sw \<in> waiters (requests w r)}"
    by (auto simp add: request_poll_def Let_def)
next
  fix r w e w'
  assume "check_error io_requests r w = (e, (w' :: 'a world))"
  then show "{r. sw \<in> waiters (requests w' r)} \<subseteq> {r. sw \<in> waiters (requests w r)}"
    by (auto simp add: request_check_error_def Let_def split: status.splits)
next
  fix w w'
  assume "wait_for_on io_requests sw w = Some (w' :: 'a world)"
  then show "{r. sw \<in> waiters (requests w' r)} \<subseteq> {r. sw \<in> waiters (requests w r)}"
    by (auto simp add: switch_wait_for_on_def dest!: await_result)
qed

text \<open>
  C3. Let \<open>reg w\<close> bound the requests on which the switch created by the call is
  registered in the world \<open>w\<close>: only an \<open>add_waiter\<close> that answers false adds its request,
  \<open>delete_waiter\<close> removes its request, \<open>poll\<close>, \<open>check_error\<close> and \<open>wait_for_on\<close> add none,
  and the switch is registered nowhere when it is created. Then, when \<open>wait_any\<close> returns
  or throws, \<open>reg\<close> is empty: no request retains a registration of the switch. The log of
  the call is the constructor of the switch followed by two parts: no \<open>add_waiter\<close> is
  called in the second, and every request on which an \<open>add_waiter\<close> of the first recorded
  a registration (answered false) has \<open>delete_waiter\<close> called on it with the same switch
  in the second.
\<close>

theorem wait_any_leaves_no_waiter:
  assumes "tracks_waiters ops (fst (new_switch ops w)) reg"
    and "reg (snd (new_switch ops w)) = {}"
    and "wait_any (traced ops) reqs (w, []) = Some (out, (w', tr))"
  shows "reg w' = {} \<and>
    (\<exists>pre post. tr = New_switch (fst (new_switch ops w)) # pre @ post \<and>
       (\<forall>r s b. Add_waiter r s b \<notin> set post) \<and>
       (\<forall>r s. Add_waiter r s False \<in> set pre \<longrightarrow> Delete_waiter r s \<in> set post))"
proof -
  from wait_any_calls [OF assms(3)] have plain: "wait_any ops reqs w = Some (out, w')"
    by simp
  from wait_any_reg [OF assms(1,2) plain] wait_any_registrations_undone [OF assms(3)]
  show ?thesis by blast
qed

theorem wait_any_leaves_no_waiter_witness:
  "tracks_waiters io_requests (fst (new_switch io_requests busy_example))
     (\<lambda>v. {r. 1 \<in> waiters (requests v r)})
   \<and> {r. 1 \<in> waiters (requests (snd (new_switch io_requests busy_example)) r)} = {}
   \<and> wait_any (traced io_requests) [1, 2, 3] (busy_example, [])
     = Some (Inr 2, (busy_example\<lparr>next_switch := 2\<rparr>,
         [New_switch 1, Add_waiter 1 1 False, Add_waiter 2 1 False, Add_waiter 3 1 True,
          Delete_waiter 2 1, Delete_waiter 1 1, Check_error 3 None]))
   \<and> {r. 1 \<in> waiters (requests (busy_example\<lparr>next_switch := 2\<rparr>) r)} = {}"
proof -
  have sw: "fst (new_switch io_requests busy_example) = 1"
    by (simp add: switch_new_def busy_example_def idle_world_def)
  have t: "tracks_waiters io_requests (fst (new_switch io_requests busy_example))
     (\<lambda>v. {r. 1 \<in> waiters (requests v r)})"
    unfolding sw by (rule io_tracks_waiters)
  have fresh: "{r. 1 \<in> waiters (requests (snd (new_switch io_requests busy_example)) r)} = {}"
    by (simp add: switch_new_def busy_example_def idle_world_def fresh_request_def)
  have run: "wait_any (traced io_requests) [1, 2, 3] (busy_example, [])
     = Some (Inr 2, (busy_example\<lparr>next_switch := 2\<rparr>,
         [New_switch 1, Add_waiter 1 1 False, Add_waiter 2 1 False, Add_waiter 3 1 True,
          Delete_waiter 2 1, Delete_waiter 1 1, Check_error 3 None]))"
    by (simp add: io_eval busy_example_def fun_eq_iff)
  from wait_any_leaves_no_waiter [OF t fresh run] t fresh run show ?thesis by blast
qed

text \<open>
  In the request model, with no switch registered before it is created, the switch a
  returning \<open>wait_any\<close> created is in the waiter set of no request, whatever the
  completion side did during the call.
\<close>

lemma io_wait_any_leaves_no_waiter:
  assumes "no_stale_waiters w" and "wait_any io_requests reqs w = Some (out, w')"
  shows "\<forall>r. next_switch w \<notin> waiters (requests w' r)"
proof -
  have sw: "fst (new_switch io_requests w) = next_switch w" by (simp add: switch_new_def)
  have t: "tracks_waiters io_requests (fst (new_switch io_requests w))
             (\<lambda>v. {r. next_switch w \<in> waiters (requests v r)})"
    unfolding sw by (rule io_tracks_waiters)
  have fresh: "{r. next_switch w \<in> waiters (requests (snd (new_switch io_requests w)) r)} = {}"
    using assms(1) by (auto simp add: switch_new_def no_stale_waiters_def)
  from wait_any_reg [OF t fresh assms(2)] show ?thesis by blast
qed

subsection \<open>wait_any returns only when a request of the range is terminal\<close>

lemma wait_any_unregister_keeps:
  assumes d: "\<And>r w. P w \<Longrightarrow> P (delete_waiter ops r sw w)"
  shows "P w \<Longrightarrow> P (snd (wait_any_unregister ops sw reqs cur w))"
proof (induction cur arbitrary: w)
  case 0
  then show ?case by simp
next
  case (Suc n)
  show ?case
  proof (cases n)
    case 0
    with Suc.prems show ?thesis by simp
  next
    case (Suc m)
    then have "wait_any_unregister ops sw reqs (Suc n) w
        = wait_any_unregister ops sw reqs n (delete_waiter ops (reqs ! n) sw w)" by simp
    with Suc.IH [OF d [OF Suc.prems]] show ?thesis by simp
  qed
qed

lemma wait_any_collect_keeps:
  assumes d: "\<And>r w. P w \<Longrightarrow> P (delete_waiter ops r sw w)"
    and p: "\<And>r w b w'. P w \<Longrightarrow> poll ops r w = (b, w') \<Longrightarrow> P w'"
  shows "P w \<Longrightarrow> P (snd (wait_any_collect ops sw reqs cur result w))"
proof (induction "length reqs - cur" arbitrary: cur result w)
  case 0
  then show ?case by simp
next
  case (Suc n)
  then have lt: "cur < length reqs" by simp
  have n: "n = length reqs - Suc cur" using Suc.hyps(2) by simp
  define w1 where "w1 = delete_waiter ops (reqs ! cur) sw w"
  have w1: "P w1" unfolding w1_def by (rule d [OF Suc.prems])
  show ?case
  proof (cases "result = length reqs")
    case True
    obtain b w2 where pl: "poll ops (reqs ! cur) w1 = (b, w2)"
      by (cases "poll ops (reqs ! cur) w1")
    from p [OF w1 pl] have "P w2" .
    from Suc.hyps(1) [OF n this] lt True pl show ?thesis
      by (simp add: w1_def)
  next
    case False
    from Suc.hyps(1) [OF n w1] lt False show ?thesis by (simp add: w1_def)
  qed
qed

lemma wait_any_register_keeps:
  assumes a: "\<And>r w b w'. r \<in> set reqs \<Longrightarrow> J w \<Longrightarrow> add_waiter ops r sw w = (b, w') \<Longrightarrow> J w'"
  shows "wait_any_register ops sw reqs cur w = (None, w') \<Longrightarrow> J w \<Longrightarrow> J w'"
proof (induction "length reqs - cur" arbitrary: cur w)
  case 0
  then show ?case by simp
next
  case (Suc n)
  then have lt: "cur < length reqs" by simp
  have n: "n = length reqs - Suc cur" using Suc.hyps(2) by simp
  obtain b w1 where aw: "add_waiter ops (reqs ! cur) sw w = (b, w1)"
    by (cases "add_waiter ops (reqs ! cur) sw w")
  from a [OF _ Suc.prems(2) aw] lt have j: "J w1" by simp
  from Suc.prems(1) lt aw have "\<not> b"
    by (auto simp add: Let_def split: prod.splits)
  with Suc.prems(1) lt aw have "wait_any_register ops sw reqs (Suc cur) w1 = (None, w')" by simp
  from Suc.hyps(1) [OF n this j] show ?case .
qed

lemma wait_any_register_found:
  assumes a: "\<And>r w w'. add_waiter ops r sw w = (True, w') \<Longrightarrow> T w' r"
    and d: "\<And>r r' w. T w r \<Longrightarrow> T (delete_waiter ops r' sw w) r"
    and c: "\<And>r r' w e w'. T w r \<Longrightarrow> check_error ops r' w = (e, w') \<Longrightarrow> T w' r"
  shows "wait_any_register ops sw reqs cur w = (Some out, w') \<Longrightarrow> \<exists>r \<in> set reqs. T w' r"
proof (induction "length reqs - cur" arbitrary: cur w)
  case 0
  then show ?case by simp
next
  case (Suc n)
  then have lt: "cur < length reqs" by simp
  have n: "n = length reqs - Suc cur" using Suc.hyps(2) by simp
  obtain b w1 where aw: "add_waiter ops (reqs ! cur) sw w = (b, w1)"
    by (cases "add_waiter ops (reqs ! cur) sw w")
  show ?case
  proof (cases b)
    case True
    with a aw have t1: "T w1 (reqs ! cur)" by simp
    define w3 where "w3 = (if cur \<noteq> 0 then
            (case wait_any_unregister ops sw reqs cur w1 of
               (cur', w2) \<Rightarrow> delete_waiter ops (reqs ! cur') sw w2)
          else w1)"
    have "T (snd (wait_any_unregister ops sw reqs cur w1)) (reqs ! cur)"
      by (rule wait_any_unregister_keeps [where P = "\<lambda>w. T w (reqs ! cur)"]) (auto intro: d t1)
    then have t3: "T w3 (reqs ! cur)"
      unfolding w3_def using t1 by (auto split: prod.splits intro: d)
    obtain err w4 where ce: "check_error ops (reqs ! cur) w3 = (err, w4)"
      by (cases "check_error ops (reqs ! cur) w3")
    from Suc.prems(1) lt aw True have
      "(case check_error ops (reqs ! cur) w3 of
          (err, w4) \<Rightarrow> (Some (case err of None \<Rightarrow> Inr cur | Some e \<Rightarrow> Inl e), w4)) = (Some out, w')"
      by (simp add: w3_def Let_def)
    with ce have "w' = w4" by simp
    with c [OF t3 ce] lt show ?thesis by auto
  next
    case False
    with Suc.prems(1) lt aw have "wait_any_register ops sw reqs (Suc cur) w1 = (Some out, w')"
      by simp
    from Suc.hyps(1) [OF n this] show ?thesis .
  qed
qed

lemma wait_any_returns_terminal:
  assumes ns: "new_switch ops w = (sw, w0)" and j0: "J w0"
    and a_true: "\<And>r w w'. add_waiter ops r sw w = (True, w') \<Longrightarrow> T w' r"
    and a_keep: "\<And>r w b w'. r \<in> set reqs \<Longrightarrow> J w \<Longrightarrow> add_waiter ops r sw w = (b, w') \<Longrightarrow> J w'"
    and d: "\<And>r r' w. T w r \<Longrightarrow> T (delete_waiter ops r' sw w) r"
    and p: "\<And>r r' w b w'. T w r \<Longrightarrow> poll ops r' w = (b, w') \<Longrightarrow> T w' r"
    and c: "\<And>r r' w e w'. T w r \<Longrightarrow> check_error ops r' w = (e, w') \<Longrightarrow> T w' r"
    and wake: "\<And>w w'. J w \<Longrightarrow> wait_for_on ops sw w = Some w' \<Longrightarrow> \<exists>r \<in> set reqs. T w' r"
    and run: "wait_any ops reqs w = Some (out, w')"
  shows "\<exists>r \<in> set reqs. T w' r"
proof -
  obtain res w1 where rg: "wait_any_register ops sw reqs 0 w0 = (res, w1)"
    by (cases "wait_any_register ops sw reqs 0 w0")
  show ?thesis
  proof (cases res)
    case (Some o1)
    with run ns rg have w': "w' = w1" by (simp add: wait_any_def)
    have "\<exists>r \<in> set reqs. T w1 r"
    proof (rule wait_any_register_found [where T = T and ops = ops and sw = sw])
      show "wait_any_register ops sw reqs 0 w0 = (Some o1, w1)" using rg Some by simp
    qed (fact a_true, erule d, erule c, assumption)
    with w' show ?thesis by simp
  next
    case None
    with run ns rg obtain w2 where wf: "wait_for_on ops sw w1 = Some w2"
      and w': "w' = snd (wait_any_collect ops sw reqs 0 (length reqs) w2)"
      by (auto simp add: wait_any_def split: option.splits prod.splits)
    have "J w1"
    proof (rule wait_any_register_keeps [where J = J and ops = ops and sw = sw])
      show "wait_any_register ops sw reqs 0 w0 = (None, w1)" using rg None by simp
    qed (erule a_keep, assumption, assumption, fact j0)
    from wake [OF this wf] obtain r where r: "r \<in> set reqs" "T w2 r" by blast
    have "T w' r" unfolding w'
      by (rule wait_any_collect_keeps [where P = "\<lambda>w. T w r"]) (auto intro: d p r)
    with r show ?thesis by blast
  qed
qed

lemma occur_signals_only: "signals_only sw S w \<Longrightarrow> signals_only sw S (occur ev w)"
proof (cases ev)
  case (Begin r)
  assume "signals_only sw S w"
  with Begin show ?thesis by (auto simp add: signals_only_def terminal_def)
next
  case (Finish r)
  assume "signals_only sw S w"
  with Finish show ?thesis
    by (auto simp add: signals_only_def leave_pending_def terminal_def)
next
  case (Fail r e)
  assume "signals_only sw S w"
  with Fail show ?thesis
    by (auto simp add: signals_only_def leave_pending_def terminal_def)
qed

lemma occur_all_signals_only: "signals_only sw S w \<Longrightarrow> signals_only sw S (occur_all evs w)"
  by (induction evs arbitrary: w) (simp_all add: occur_signals_only)

lemma signals_only_schedule [simp]:
  "signals_only sw S (w\<lparr>schedule := s\<rparr>) = signals_only sw S w"
  by (simp add: signals_only_def)

lemma tick_signals_only: "signals_only sw S w \<Longrightarrow> signals_only sw S (tick w)"
  by (simp add: tick_def occur_all_signals_only split: list.split)

lemma request_add_waiter_signals_only:
  assumes "r \<in> S" and "signals_only sw S w" and "request_add_waiter r sw w = (b, w')"
  shows "signals_only sw S w'"
proof -
  from tick_signals_only [OF assms(2)] have "signals_only sw S (tick w)" .
  with assms(1,3) show ?thesis
    by (auto simp add: request_add_waiter_def Let_def signals_only_def terminal_def
        split: if_splits)
qed

lemma switch_wait_for_on_signals:
  assumes "signals_only sw S w" and "switch_wait_for_on sw w = Some w'"
  shows "\<exists>r \<in> S. terminal w' r"
proof -
  from assms(2) obtain k where
    w': "w' = (occur_all (concat (take k (schedule w))) w)\<lparr>schedule := drop k (schedule w)\<rparr>"
    and on: "sw \<in> switched_on (occur_all (concat (take k (schedule w))) w)"
    by (auto simp add: switch_wait_for_on_def dest!: await_result)
  from occur_all_signals_only [OF assms(1)] on
  have "\<exists>r \<in> S. terminal (occur_all (concat (take k (schedule w))) w) r"
    by (simp add: signals_only_def)
  with w' show ?thesis by simp
qed

lemma switch_new_signals_only:
  "no_stale_waiters w \<Longrightarrow> signals_only (next_switch w) S (snd (switch_new w))"
  by (auto simp add: no_stale_waiters_def signals_only_def switch_new_def)

lemma request_calls_terminal:
  "request_add_waiter r sw w = (True, w') \<Longrightarrow> terminal w' r"
  "terminal w r \<Longrightarrow> terminal (request_delete_waiter r' sw w) r"
  "terminal w r \<Longrightarrow> request_poll r' w = (b, w') \<Longrightarrow> terminal w' r"
  "terminal w r \<Longrightarrow> request_check_error r' w = (e, w') \<Longrightarrow> terminal w' r"
proof -
  show "request_add_waiter r sw w = (True, w') \<Longrightarrow> terminal w' r"
    by (auto simp add: request_add_waiter_def Let_def split: if_splits)
  assume t: "terminal w r"
  from tick_terminal [OF t] show "terminal (request_delete_waiter r' sw w) r"
    by (auto simp add: request_delete_waiter_def Let_def terminal_def)
  from tick_terminal [OF t] show "request_poll r' w = (b, w') \<Longrightarrow> terminal w' r"
    by (auto simp add: request_poll_def Let_def)
  from tick_terminal [OF t] show "request_check_error r' w = (e, w') \<Longrightarrow> terminal w' r"
    by (auto simp add: request_check_error_def Let_def split: status.splits)
qed

lemma io_wait_any_returns_terminal:
  assumes "no_stale_waiters w" and "wait_any io_requests reqs w = Some (out, w')"
  shows "\<exists>r \<in> set reqs. terminal w' r"
proof (rule wait_any_returns_terminal [where ops = io_requests and T = terminal
      and J = "signals_only (next_switch w) (set reqs)" and sw = "next_switch w"
      and ?w0.0 = "snd (switch_new w)" and w = w and out = out])
  show "new_switch io_requests w = (next_switch w, snd (switch_new w))"
    by (simp add: switch_new_def)
  show "signals_only (next_switch w) (set reqs) (snd (switch_new w))"
    by (rule switch_new_signals_only [OF assms(1)])
  show "wait_any io_requests reqs w = Some (out, w')" by (rule assms(2))
qed (auto intro: request_calls_terminal request_add_waiter_signals_only
      switch_wait_for_on_signals)

text \<open>
  C9. On the empty range \<open>wait_any\<close> calls nothing but the constructor of its switch and
  \<open>wait_for_on\<close> on it (no \<open>add_waiter\<close>), and it returns only if that \<open>wait_for_on\<close> does.
  In the request model, with no switch registered before it is created, no request can
  set that switch: \<open>wait_any\<close> on the empty range never returns. On any range, a \<open>wait_any\<close>
  that returns or throws leaves a terminal request in the range, so the range was not
  empty.
\<close>

theorem wait_any_empty_never_returns:
  "wait_any ops [] v =
     (case new_switch ops v of
        (sw, v1) \<Rightarrow> (case wait_for_on ops sw v1 of
                       None \<Rightarrow> None
                     | Some v2 \<Rightarrow> Some (Inr 0, v2)))
   \<and> (no_stale_waiters w \<longrightarrow>
        wait_any io_requests [] w = None \<and>
        (wait_any io_requests reqs w = Some (out, w') \<longrightarrow>
           reqs \<noteq> [] \<and> (\<exists>r \<in> set reqs. terminal w' r)))"
proof (intro conjI impI)
  show "wait_any ops [] v =
     (case new_switch ops v of
        (sw, v1) \<Rightarrow> (case wait_for_on ops sw v1 of
                       None \<Rightarrow> None
                     | Some v2 \<Rightarrow> Some (Inr 0, v2)))"
    by (simp add: wait_any_def split: prod.splits option.splits)
next
  assume ok: "no_stale_waiters w"
  show "wait_any io_requests [] w = None"
  proof (cases "wait_any io_requests [] w")
    case None
    then show ?thesis .
  next
    case (Some res)
    then have "wait_any io_requests [] w = Some (fst res, snd res)" by simp
    from io_wait_any_returns_terminal [OF ok this] show ?thesis by simp
  qed
next
  assume ok: "no_stale_waiters w" and run: "wait_any io_requests reqs w = Some (out, w')"
  from io_wait_any_returns_terminal [OF ok run] show "\<exists>r \<in> set reqs. terminal w' r" .
  then show "reqs \<noteq> []" by auto
qed

theorem wait_any_empty_never_returns_witness:
  "no_stale_waiters empty_example
   \<and> wait_any io_requests [] empty_example = None
   \<and> wait_any io_requests [1] empty_example
       = Some (Inr 0, idle_world\<lparr>requests := (\<lambda>r. fresh_request)(1 := fresh_request\<lparr>state := Completed\<rparr>),
                                  switched_on := {0}, next_switch := 1\<rparr>)
   \<and> terminal (idle_world\<lparr>requests := (\<lambda>r. fresh_request)(1 := fresh_request\<lparr>state := Completed\<rparr>),
                          switched_on := {0}, next_switch := 1\<rparr> :: string world) 1"
proof -
  have ok: "no_stale_waiters empty_example"
    by (simp add: no_stale_waiters_def empty_example_def idle_world_def fresh_request_def)
  have run: "wait_any io_requests [1] empty_example
       = Some (Inr 0, idle_world\<lparr>requests := (\<lambda>r. fresh_request)(1 := fresh_request\<lparr>state := Completed\<rparr>),
                                  switched_on := {0}, next_switch := 1\<rparr>)"
    by (simp add: io_eval empty_example_def fun_eq_iff)
  note inst = wait_any_empty_never_returns [where ops = io_requests and v = empty_example
      and w = empty_example and reqs = "[1]" and out = "Inr 0"
      and w' = "idle_world\<lparr>requests := (\<lambda>r. fresh_request)(1 := fresh_request\<lparr>state := Completed\<rparr>),
                                  switched_on := {0}, next_switch := 1\<rparr>"]
  from inst ok have blocked: "wait_any io_requests [] empty_example = None" by blast
  from inst ok run have "\<exists>r \<in> set [1]. terminal (idle_world\<lparr>requests := (\<lambda>r. fresh_request)(1 := fresh_request\<lparr>state := Completed\<rparr>),
                          switched_on := {0}, next_switch := 1\<rparr> :: string world) r" by blast
  then have "terminal (idle_world\<lparr>requests := (\<lambda>r. fresh_request)(1 := fresh_request\<lparr>state := Completed\<rparr>),
                          switched_on := {0}, next_switch := 1\<rparr> :: string world) 1" by simp
  with ok blocked run show ?thesis by (intro conjI)
qed

subsection \<open>No missed wakeup, at the granularity of calls\<close>







lemma armed_schedule [simp]: "armed sw R (w\<lparr>schedule := s\<rparr>) = armed sw R w"
  by (simp add: armed_def)


















end
